theory Spec2Isabelle
  imports Main "HOL-Library.Word"
begin

section \<open>The environment driver of envpool/core/env.h\<close>

text \<open>
  The class \<open>Env\<close> of \<^verbatim>\<open>envpool/core/env.h\<close> drives one environment: it demultiplexes
  the shared action batch (\<open>ParseAction\<close>), counts steps (\<open>PreProcess\<close>), calls the
  environment's own \<open>Reset\<close>/\<open>Step\<close> and publishes state (\<open>Allocate\<close>).

  Conventions of the embedding.
  \<^item> A C \<open>int\<close> that holds a value (an environment id, the step counter, the seed) is a
    32-bit word; \<open>+\<close> wraps and \<open>sint\<close> reads it.
  \<^item> A C \<open>int\<close> or \<open>std::size_t\<close> that holds a row index, a row count, a field index or
    an ordinal is a \<open>nat\<close>: the embedding covers calls whose indices and counts are
    non-negative and below \<open>2^31\<close>, where the conversions between \<open>int\<close> and
    \<open>std::size_t\<close> in the source are the identity.
  \<^item> Undefined behaviour (a null pointer dereference, an index out of range) and a C++
    exception are values of the type \<open>error\<close>; a function that can meet one returns
    \<open>error + 'a\<close>, with \<open>Inl\<close> the error.
\<close>

subsection \<open>Cells, buffers and the store\<close>

type_synonym cint = "32 word"

datatype error =
    NullPointer
  | OutOfRange
  | SizeMismatch
  | BadAlloc
  | KeyNotFound
  | RuntimeError string

text \<open>
  One element of an array. The id and step fields hold C ints, \<open>done\<close> holds a bool;
  the payload of any other element type is opaque and only compared for equality.
\<close>

datatype cell = IntCell cint | BoolCell bool | RawCell nat

text \<open>
  The store maps a buffer address to the cells of that buffer. Addresses are handed out in
  order, so the store is the list of the buffers allocated so far and a fresh buffer gets
  the address \<open>length s\<close>.
\<close>

type_synonym addr = nat
type_synonym store = "cell list list"

subsection \<open>ShapeSpec and Array\<close>

text \<open>
  Modelled from the spec: \<open>ShapeSpec\<close> is declared in \<^verbatim>\<open>envpool/core/spec.h\<close>, which is
  not among the sources. It is the ordered list of dimension sizes, where a leading \<open>-1\<close>
  stands for one row per active player. The element type is not modelled.
\<close>

record ShapeSpec =
  shape :: "int list"

text \<open>
  Modelled from the spec: \<open>Array\<close> is declared in \<^verbatim>\<open>envpool/core/array.h\<close>, which is not
  among the sources. An array is a typed buffer with a shape that either owns its storage or
  is an aliasing view of another array's storage: here the address of the buffer, the
  position of its first cell in that buffer, and its dimensions.
\<close>

record Array =
  buf :: addr
  offset :: nat
  dims :: "nat list"

definition size_of :: "Array \<Rightarrow> nat" where
  "size_of a = prod_list (dims a)"

definition row_size :: "Array \<Rightarrow> nat" where
  "row_size a = prod_list (tl (dims a))"

text \<open>An array lies in the store when its buffer exists and holds all of its cells.\<close>

definition in_store :: "store \<Rightarrow> Array \<Rightarrow> bool" where
  "in_store s a = (buf a < length s \<and> offset a + size_of a \<le> length (s ! buf a))"

text \<open>The cells an array denotes, in row-major order.\<close>

definition contents :: "store \<Rightarrow> Array \<Rightarrow> cell list" where
  "contents s a = take (size_of a) (drop (offset a) (s ! buf a))"

text \<open>
  The cells of the rows \<open>idx\<close> of an array, row after row in the order of \<open>idx\<close>: what
  the spec calls the matching rows of a field, preserving match order.
\<close>

definition matched_rows :: "store \<Rightarrow> Array \<Rightarrow> nat list \<Rightarrow> cell list" where
  "matched_rows s f idx =
     concat (map (\<lambda>k. take (row_size f) (drop (offset f + k * row_size f) (s ! buf f))) idx)"

text \<open>Modelled from the spec: \<open>Shape(dim)\<close>, the size of one dimension.\<close>

definition Shape :: "Array \<Rightarrow> nat \<Rightarrow> error + nat" where
  "Shape a d = (if d < length (dims a) then Inr (dims a ! d) else Inl OutOfRange)"

text \<open>
  Modelled from the spec: \<open>Slice(start, end)\<close>, the zero-copy view of the contiguous row
  range \<open>[start, end)\<close>. A range outside the array is out of range.
\<close>

definition Slice :: "Array \<Rightarrow> nat \<Rightarrow> nat \<Rightarrow> error + Array" where
  "Slice a start end =
     (if dims a \<noteq> [] \<and> start \<le> end \<and> end \<le> hd (dims a)
      then Inr \<lparr>buf = buf a, offset = offset a + start * row_size a,
                dims = (end - start) # tl (dims a)\<rparr>
      else Inl OutOfRange)"

text \<open>Modelled from the spec: \<open>operator[](i)\<close>, the aliasing view of the single row \<open>i\<close>.\<close>

definition Index :: "Array \<Rightarrow> nat \<Rightarrow> error + Array" where
  "Index a i =
     (if dims a \<noteq> [] \<and> i < hd (dims a)
      then Inr \<lparr>buf = buf a, offset = offset a + i * row_size a, dims = tl (dims a)\<rparr>
      else Inl OutOfRange)"

text \<open>
  Modelled from the spec: \<open>data()\<close>, raw element access. \<open>read_cell s a i\<close> is the read
  \<open>data()[i]\<close> and \<open>write_cell s a i c\<close> the write \<open>data()[i] = c\<close>; an access past the
  end of the buffer is out of range.
\<close>

definition read_cell :: "store \<Rightarrow> Array \<Rightarrow> nat \<Rightarrow> error + cell" where
  "read_cell s a i =
     (if buf a < length s \<and> offset a + i < length (s ! buf a)
      then Inr (s ! buf a ! (offset a + i))
      else Inl OutOfRange)"

definition write_cell :: "store \<Rightarrow> Array \<Rightarrow> nat \<Rightarrow> cell \<Rightarrow> error + store" where
  "write_cell s a i c =
     (if buf a < length s \<and> offset a + i < length (s ! buf a)
      then Inr (s[buf a := (s ! buf a)[offset a + i := c]])
      else Inl OutOfRange)"

text \<open>Overwriting the cells of a buffer from position \<open>off\<close> on with \<open>ys\<close>.\<close>

definition write_at :: "cell list \<Rightarrow> nat \<Rightarrow> cell list \<Rightarrow> cell list" where
  "write_at xs off ys = take off xs @ ys @ drop (off + length ys) xs"

text \<open>
  Modelled from the spec: \<open>Assign(other)\<close> copies \<open>other\<close> element-wise into this view.
  Both views must lie in the store and hold the same number of cells.
\<close>

definition Assign :: "store \<Rightarrow> Array \<Rightarrow> Array \<Rightarrow> error + store" where
  "Assign s tgt src =
     (if in_store s tgt \<and> in_store s src
      then (if size_of tgt = size_of src
            then Inr (s[buf tgt := write_at (s ! buf tgt) (offset tgt) (contents s src)])
            else Inl SizeMismatch)
      else Inl OutOfRange)"

text \<open>
  Modelled from the spec: the constructor \<open>Array(spec)\<close> allocates a new owned buffer of
  the shape of \<open>spec\<close>. A negative dimension cannot be allocated. The cells of the new
  buffer are \<open>RawCell 0\<close> until they are written.
\<close>

definition new_Array :: "ShapeSpec \<Rightarrow> store \<Rightarrow> error + (Array \<times> store)" where
  "new_Array sp s =
     (if list_ex (\<lambda>d. d < 0) (shape sp) then Inl BadAlloc
      else Inr (\<lparr>buf = length s, offset = 0, dims = map nat (shape sp)\<rparr>,
                s @ [replicate (prod_list (map nat (shape sp))) (RawCell 0)]))"

subsection \<open>Loops\<close>

text \<open>
  The loop \<^verbatim>\<open>for (i = lo; i < n; ++i) body\<close> over a state \<open>acc\<close>, stopping at the first
  error of the body.
\<close>

function for_loop :: "(nat \<Rightarrow> 'a \<Rightarrow> error + 'a) \<Rightarrow> nat \<Rightarrow> nat \<Rightarrow> 'a \<Rightarrow> error + 'a" where
  "for_loop body i n acc =
     (if i < n
      then (case body i acc of Inl e \<Rightarrow> Inl e | Inr acc' \<Rightarrow> for_loop body (i + 1) n acc')
      else Inr acc)"
  by pat_completeness auto
termination
  by (relation "measure (\<lambda>(body, i, n, acc). n - i)") auto

declare for_loop.simps [simp del]

subsection \<open>The player-id scan (env.h, lines 91 to 98)\<close>

text \<open>
  One iteration: \<^verbatim>\<open>if (player_env_id[i] == env_id_) env_player_index.push_back(i);\<close>
\<close>

definition scan_body :: "store \<Rightarrow> Array \<Rightarrow> cint \<Rightarrow> nat \<Rightarrow> nat list \<Rightarrow> error + nat list" where
  "scan_body s ids eid i env_player_index =
     (case read_cell s ids i of
        Inl e \<Rightarrow> Inl e
      | Inr c \<Rightarrow> Inr (if c = IntCell eid then env_player_index @ [i] else env_player_index))"

text \<open>
  \<open>player_offset\<close> is \<open>Shape(0)\<close> of the id field; the scan runs over the first
  \<open>player_offset\<close> cells behind \<open>data()\<close>.
\<close>

definition player_scan :: "store \<Rightarrow> Array \<Rightarrow> cint \<Rightarrow> error + nat list" where
  "player_scan s ids eid =
     (case Shape ids 0 of
        Inl e \<Rightarrow> Inl e
      | Inr player_offset \<Rightarrow> for_loop (scan_body s ids eid) 0 player_offset [])"

subsection \<open>EnvSpec, the slot queue and the driver's state\<close>

text \<open>
  Modelled from the spec: \<open>EnvSpec\<close> is declared in \<^verbatim>\<open>envpool/core/env_spec.h\<close>, which
  is not among the sources. It exposes the configuration values \<open>max_num_players\<close> and
  \<open>seed\<close> and the two field tables, each an ordered mapping from a field name to a
  \<open>ShapeSpec\<close>.
\<close>

record EnvSpec =
  max_num_players :: int
  config_seed :: cint
  action_spec :: "(string \<times> ShapeSpec) list"
  state_spec :: "(string \<times> ShapeSpec) list"

text \<open>
  The completion signal of a slot: the stub the constructor installs, which only logs, or
  the signal of the slot reserved at an ordinal. The signal belongs to the queue that has
  reserved the slot: it carries the address of that queue and the ordinal.
\<close>

datatype done_write = LogStub | SlotDone nat nat

record WritableSlice =
  arr :: "Array list"
  done_write :: done_write

text \<open>
  Modelled from the spec: \<open>StateBufferQueue\<close> is declared in
  \<^verbatim>\<open>envpool/core/state_buffer_queue.h\<close>, which is not among the sources. The queue is
  an object at an address; it knows the shape of every state field and records which slots
  were reserved (ordinal and number of player rows). The place of a slot in the assembled
  batch is represented by its ordinal alone. Which slots were signalled complete is recorded
  for all queues together, by address, in the world below.
\<close>

record StateBufferQueue =
  queue_addr :: nat
  field_specs :: "ShapeSpec list"
  reserved :: "(nat \<times> nat) list"

text \<open>The shape of one state field in a slot of \<open>player_num\<close> player rows.\<close>

definition slot_shape :: "ShapeSpec \<Rightarrow> nat \<Rightarrow> ShapeSpec" where
  "slot_shape sp player_num =
     (if shape sp \<noteq> [] \<and> hd (shape sp) = - 1
      then sp\<lparr>shape := int player_num # tl (shape sp)\<rparr>
      else sp)"

fun alloc_fields :: "ShapeSpec list \<Rightarrow> nat \<Rightarrow> store \<Rightarrow> error + (Array list \<times> store)" where
  "alloc_fields [] player_num s = Inr ([], s)"
| "alloc_fields (sp # sps) player_num s =
     (case new_Array (slot_shape sp player_num) s of
        Inl e \<Rightarrow> Inl e
      | Inr (a, s1) \<Rightarrow>
          (case alloc_fields sps player_num s1 of
             Inl e \<Rightarrow> Inl e
           | Inr (as, s2) \<Rightarrow> Inr (a # as, s2)))"

text \<open>
  Modelled from the spec: \<open>StateBufferQueue::Allocate(player_num, order)\<close> reserves
  pre-sized storage for \<open>player_num\<close> player rows at the ordinal \<open>order\<close> and returns the
  slot, whose completion signal marks that slot and only that slot.
\<close>

definition sbq_Allocate ::
  "StateBufferQueue \<Rightarrow> nat \<Rightarrow> nat \<Rightarrow> store \<Rightarrow> error + (WritableSlice \<times> StateBufferQueue \<times> store)" where
  "sbq_Allocate q player_num ord s =
     (case alloc_fields (field_specs q) player_num s of
        Inl e \<Rightarrow> Inl e
      | Inr (as, s1) \<Rightarrow>
          Inr (\<lparr>arr = as, done_write = SlotDone (queue_addr q) ord\<rparr>,
               q\<lparr>reserved := reserved q @ [(ord, player_num)]\<rparr>, s1))"

text \<open>
  The members of \<open>class Env\<close>. The pointer \<open>sbq_\<close> is the queue it points to, \<open>None\<close>
  before the first \<open>PreProcess\<close>; the shared pointer \<open>action_batch_\<close> is the vector it
  points to, \<open>None\<close> while it is null. \<open>order_\<close> and \<open>env_index_\<close> are uninitialised
  after construction; they are \<open>0\<close> here, and no operation reads them before
  \<open>PreProcess\<close> respectively \<open>SetAction\<close> has set them without first meeting the null
  pointer. The generator \<open>gen_\<close> is left out: no operation of the class uses it.
\<close>

record Env =
  sbq :: "StateBufferQueue option"
  order :: nat
  elapsed_step :: cint
  is_single_player :: bool
  slice :: WritableSlice
  action_specs :: "ShapeSpec list"
  is_player_action :: "bool list"
  action_batch :: "Array list option"
  raw_action :: "Array list"
  env_index :: nat
  spec :: EnvSpec
  env_id :: cint
  seed :: cint

text \<open>
  What a call can touch: the driver, the state \<open>ext\<close> that a derived environment type
  adds, the store, the log that \<open>LOG(INFO)\<close> writes to, and the completion signals that
  the queues have received, each the address of the queue and the ordinal of the slot.
\<close>

record 'e world =
  drv :: Env
  ext :: 'e
  heap :: store
  log :: "string list"
  signalled :: "(nat \<times> nat) list"

text \<open>
  The virtual member functions \<open>Reset\<close>, \<open>Step\<close> and \<open>IsDone\<close>, as a derived environment
  type supplies them. \<open>IsDone\<close> is a query.
\<close>

record 'e EnvOps =
  Reset :: "'e world \<Rightarrow> error + 'e world"
  Step :: "Array list \<Rightarrow> 'e world \<Rightarrow> error + 'e world"
  IsDone :: "'e world \<Rightarrow> error + bool"

subsection \<open>Constructor and SetAction (env.h, lines 56 to 76)\<close>

definition Env_new :: "EnvSpec \<Rightarrow> cint \<Rightarrow> Env" where
  "Env_new sp eid =
     \<lparr>sbq = None,
      order = 0,
      elapsed_step = - 1,
      is_single_player = (max_num_players sp = 1),
      slice = \<lparr>arr = [], done_write = LogStub\<rparr>,
      action_specs = map snd (action_spec sp),
      is_player_action =
        map (\<lambda>s. length (shape s) > 0 \<and> shape s ! 0 = - 1) (map snd (action_spec sp)),
      action_batch = None,
      raw_action = [],
      env_index = 0,
      spec = sp,
      env_id = eid,
      seed = config_seed sp + eid\<rparr>"

definition SetAction :: "Env \<Rightarrow> Array list option \<Rightarrow> nat \<Rightarrow> Env" where
  "SetAction d batch idx = d\<lparr>action_batch := batch, env_index := idx\<rparr>"

subsection \<open>ParseAction (env.h, lines 78 to 126)\<close>

text \<open>The body of the single-player loop, lines 83 to 88, for the field \<open>i\<close>.\<close>

fun single_body :: "Array list \<Rightarrow> nat \<Rightarrow> Env \<times> store \<Rightarrow> error + (Env \<times> store)" where
  "single_body batch i (d, s) =
     (if i < length (is_player_action d)
      then (if is_player_action d ! i
            then (case Slice (batch ! i) (env_index d) (env_index d + 1) of
                    Inl e \<Rightarrow> Inl e
                  | Inr v \<Rightarrow> Inr (d\<lparr>raw_action := raw_action d @ [v]\<rparr>, s))
            else (case Index (batch ! i) (env_index d) of
                    Inl e \<Rightarrow> Inl e
                  | Inr v \<Rightarrow> Inr (d\<lparr>raw_action := raw_action d @ [v]\<rparr>, s)))
      else Inl OutOfRange)"

text \<open>
  Lines 99 to 106: from the matched indices, the flag \<open>continuous\<close> and the bounds
  \<open>start\<close> and \<open>end\<close>.
\<close>

definition contiguity :: "nat list \<Rightarrow> bool \<times> nat \<times> nat" where
  "contiguity env_player_index =
     (let player_num = length env_player_index in
      if player_num > 0
      then (let start = env_player_index ! 0;
                end = env_player_index ! (player_num - 1) + 1
            in (int player_num = int end - int start, start, end))
      else (False, 0, 0))"

text \<open>
  Lines 116 and 117: \<^verbatim>\<open>arr[j].Assign((*action_batch_)[i][player_index])\<close>, where
  \<open>field\<close> is \<^verbatim>\<open>(*action_batch_)[i]\<close>.
\<close>

definition gather_body :: "Array \<Rightarrow> Array \<Rightarrow> nat list \<Rightarrow> nat \<Rightarrow> store \<Rightarrow> error + store" where
  "gather_body a field env_player_index j s =
     (let player_index = env_player_index ! j in
      case Index a j of
        Inl e \<Rightarrow> Inl e
      | Inr tgt \<Rightarrow>
          (case Index field player_index of
             Inl e \<Rightarrow> Inl e
           | Inr src \<Rightarrow> Assign s tgt src))"

text \<open>
  Lines 113 to 119, the per-row gather of the field \<open>i\<close>: the driver's own shape spec of
  the field gets \<open>player_num\<close> as its leading dimension, a new owned array of that shape
  is allocated, and the matched rows are copied into it one by one.
\<close>

fun gather_entry :: "Array list \<Rightarrow> nat list \<Rightarrow> nat \<Rightarrow> Env \<times> store \<Rightarrow> error + (Env \<times> store)" where
  "gather_entry batch env_player_index i (d, s) =
     (let player_num = length env_player_index in
      if i < length (action_specs d) \<and> shape (action_specs d ! i) \<noteq> []
      then (let sp = (action_specs d ! i)
                       \<lparr>shape := (shape (action_specs d ! i))[0 := int player_num]\<rparr>;
                d1 = d\<lparr>action_specs := (action_specs d)[i := sp]\<rparr>
            in case new_Array sp s of
                 Inl e \<Rightarrow> Inl e
               | Inr (a, s1) \<Rightarrow>
                   (case for_loop (gather_body a (batch ! i) env_player_index) 0 player_num s1 of
                      Inl e \<Rightarrow> Inl e
                    | Inr s2 \<Rightarrow> Inr (d1\<lparr>raw_action := raw_action d1 @ [a]\<rparr>, s2)))
      else Inl OutOfRange)"

text \<open>The body of the multi-player loop, lines 108 to 123, for the field \<open>i\<close>.\<close>

fun multi_body ::
  "Array list \<Rightarrow> nat list \<Rightarrow> bool \<Rightarrow> nat \<Rightarrow> nat \<Rightarrow> nat \<Rightarrow> Env \<times> store \<Rightarrow> error + (Env \<times> store)" where
  "multi_body batch env_player_index continuous start end i (d, s) =
     (if i < length (is_player_action d)
      then (if is_player_action d ! i
            then (if continuous
                  then (case Slice (batch ! i) start end of
                          Inl e \<Rightarrow> Inl e
                        | Inr v \<Rightarrow> Inr (d\<lparr>raw_action := raw_action d @ [v]\<rparr>, s))
                  else gather_entry batch env_player_index i (d, s))
            else (case Index (batch ! i) (env_index d) of
                    Inl e \<Rightarrow> Inl e
                  | Inr v \<Rightarrow> Inr (d\<lparr>raw_action := raw_action d @ [v]\<rparr>, s)))
      else Inl OutOfRange)"

text \<open>
  Lines 91 to 98 on the driver: the scan runs over the second field of the attached batch.
\<close>

definition env_player_scan :: "Env \<Rightarrow> store \<Rightarrow> error + nat list" where
  "env_player_scan d s =
     (case action_batch d of
        None \<Rightarrow> Inl NullPointer
      | Some batch \<Rightarrow>
          (if 1 < length batch then player_scan s (batch ! 1) (env_id d)
           else Inl OutOfRange))"

definition ParseAction :: "Env \<Rightarrow> store \<Rightarrow> error + (Env \<times> store)" where
  "ParseAction d s =
     (case action_batch d of
        None \<Rightarrow> Inl NullPointer
      | Some batch \<Rightarrow>
          (let d0 = d\<lparr>raw_action := []\<rparr>;
               action_size = length batch
           in if is_single_player d
              then for_loop (single_body batch) 0 action_size (d0, s)
              else (case env_player_scan d s of
                      Inl e \<Rightarrow> Inl e
                    | Inr env_player_index \<Rightarrow>
                        (case contiguity env_player_index of
                           (continuous, start, end) \<Rightarrow>
                             for_loop (multi_body batch env_player_index continuous start end)
                               0 action_size (d0, s)))))"

subsection \<open>PreProcess and PostProcess (env.h, lines 146 to 159)\<close>

definition PreProcess :: "Env \<Rightarrow> StateBufferQueue \<Rightarrow> nat \<Rightarrow> bool \<Rightarrow> Env" where
  "PreProcess d q ord reset =
     d\<lparr>sbq := Some q,
       order := ord,
       elapsed_step := (if reset then 0 else elapsed_step d + 1)\<rparr>"

text \<open>
  \<open>slice_.done_write()\<close> runs the callback stored in \<open>slice_\<close>: the stub of the
  constructor logs its message; the signal of a reserved slot marks that slot complete in
  the queue that reserved it, whichever queue \<open>sbq_\<close> points to by now.
\<close>

definition PostProcess :: "'e world \<Rightarrow> 'e world" where
  "PostProcess w =
     (case done_write (slice (drv w)) of
        LogStub \<Rightarrow> w\<lparr>log := log w @ [''Use `Allocate` to write state.'']\<rparr>
      | SlotDone a k \<Rightarrow> w\<lparr>signalled := signalled w @ [(a, k)]\<rparr>)"

subsection \<open>Allocate (env.h, lines 161 to 172)\<close>

text \<open>
  Modelled from the spec: \<open>NamedVector\<close> is declared outside the sources. It addresses the
  arrays of a vector by the names of the key list, in order.
\<close>

fun key_index :: "string list \<Rightarrow> string \<Rightarrow> nat option" where
  "key_index [] k = None"
| "key_index (x # xs) k = (if x = k then Some 0 else map_option Suc (key_index xs k))"

definition named :: "string list \<Rightarrow> Array list \<Rightarrow> string \<Rightarrow> error + Array" where
  "named keys v k =
     (case key_index keys k of
        None \<Rightarrow> Inl KeyNotFound
      | Some i \<Rightarrow> (if i < length v then Inr (v ! i) else Inl OutOfRange))"

text \<open>Line 169: \<^verbatim>\<open>player_env_id[i] = env_id_\<close>.\<close>

definition stamp_body :: "Array \<Rightarrow> cint \<Rightarrow> nat \<Rightarrow> store \<Rightarrow> error + store" where
  "stamp_body player_env_id eid i s = write_cell s player_env_id i (IntCell eid)"

text \<open>
  Lines 164 to 170, given the value \<open>b\<close> that \<open>IsDone()\<close> has returned: the four
  mandatory fields of the state are stamped. An assignment of a scalar to a state field
  writes the first cell of the field.
\<close>

definition stamp_mandatory ::
  "string list \<Rightarrow> Array list \<Rightarrow> bool \<Rightarrow> cint \<Rightarrow> cint \<Rightarrow> nat \<Rightarrow> store \<Rightarrow> error + store" where
  "stamp_mandatory keys state b eid step player_num s1 =
     (case named keys state ''done'' of
        Inl e \<Rightarrow> Inl e
      | Inr a_done \<Rightarrow>
     (case write_cell s1 a_done 0 (BoolCell b) of
        Inl e \<Rightarrow> Inl e
      | Inr s2 \<Rightarrow>
     (case named keys state ''info:env_id'' of
        Inl e \<Rightarrow> Inl e
      | Inr a_id \<Rightarrow>
     (case write_cell s2 a_id 0 (IntCell eid) of
        Inl e \<Rightarrow> Inl e
      | Inr s3 \<Rightarrow>
     (case named keys state ''elapsed_step'' of
        Inl e \<Rightarrow> Inl e
      | Inr a_step \<Rightarrow>
     (case write_cell s3 a_step 0 (IntCell step) of
        Inl e \<Rightarrow> Inl e
      | Inr s4 \<Rightarrow>
     (case named keys state ''info:players.env_id'' of
        Inl e \<Rightarrow> Inl e
      | Inr player_env_id \<Rightarrow>
          for_loop (stamp_body player_env_id eid) 0 player_num s4)))))))"

text \<open>
  \<open>Allocate(player_num)\<close>, with the environment's \<open>IsDone\<close> as \<open>is_done\<close>: the slot is
  reserved at the current ordinal and becomes \<open>slice_\<close>, \<open>IsDone()\<close> is evaluated, and
  the mandatory fields are stamped. The result is the state, that is the arrays of the slot
  addressed by the state keys, and the world after the call.
\<close>

definition Allocate ::
  "('e world \<Rightarrow> error + bool) \<Rightarrow> nat \<Rightarrow> 'e world \<Rightarrow> error + (Array list \<times> 'e world)" where
  "Allocate is_done player_num w =
     (case sbq (drv w) of
        None \<Rightarrow> Inl NullPointer
      | Some q \<Rightarrow>
          (case sbq_Allocate q player_num (order (drv w)) (heap w) of
             Inl e \<Rightarrow> Inl e
           | Inr (sl, q1, s1) \<Rightarrow>
               (let d1 = (drv w)\<lparr>sbq := Some q1, slice := sl\<rparr>;
                    w1 = w\<lparr>drv := d1, heap := s1\<rparr>;
                    state = arr sl;
                    keys = map fst (state_spec (spec d1))
                in case is_done w1 of
                     Inl e \<Rightarrow> Inl e
                   | Inr b \<Rightarrow>
                       (case stamp_mandatory keys state b (env_id d1) (elapsed_step d1)
                               player_num s1 of
                          Inl e \<Rightarrow> Inl e
                        | Inr s5 \<Rightarrow> Inr (state, w1\<lparr>heap := s5\<rparr>)))))"

text \<open>The default argument: \<open>Allocate()\<close> is \<open>Allocate(1)\<close>.\<close>

definition Allocate_default ::
  "('e world \<Rightarrow> error + bool) \<Rightarrow> 'e world \<Rightarrow> error + (Array list \<times> 'e world)" where
  "Allocate_default is_done w = Allocate is_done 1 w"

subsection \<open>EnvStep and the virtual functions of the base class (env.h, lines 128 to 143)\<close>

definition Reset_base :: "'e world \<Rightarrow> error + 'e world" where
  "Reset_base w = Inl (RuntimeError ''reset not implemented'')"

definition Step_base :: "Array list \<Rightarrow> 'e world \<Rightarrow> error + 'e world" where
  "Step_base action w = Inl (RuntimeError ''step not implemented'')"

definition IsDone_base :: "'e world \<Rightarrow> error + bool" where
  "IsDone_base w = Inl (RuntimeError ''is_done not implemented'')"

text \<open>A driver whose environment type overrides none of the three.\<close>

definition base_ops :: "'e EnvOps" where
  "base_ops = \<lparr>Reset = Reset_base, Step = Step_base, IsDone = IsDone_base\<rparr>"

definition EnvStep ::
  "'e EnvOps \<Rightarrow> StateBufferQueue \<Rightarrow> nat \<Rightarrow> bool \<Rightarrow> 'e world \<Rightarrow> error + 'e world" where
  "EnvStep ops q ord reset w =
     (let w1 = w\<lparr>drv := PreProcess (drv w) q ord reset\<rparr>
      in if reset
         then (case Reset ops w1 of
                 Inl e \<Rightarrow> Inl e
               | Inr w2 \<Rightarrow> Inr (PostProcess w2))
         else (case ParseAction (drv w1) (heap w1) of
                 Inl e \<Rightarrow> Inl e
               | Inr (d2, s2) \<Rightarrow>
                   (case Step ops (raw_action d2) (w1\<lparr>drv := d2, heap := s2\<rparr>) of
                      Inl e \<Rightarrow> Inl e
                    | Inr w3 \<Rightarrow> Inr (PostProcess w3))))"

subsection \<open>The private action members\<close>

text \<open>
  The world in which the members \<open>action_batch_\<close>, \<open>env_index_\<close> and \<open>raw_action_\<close> of
  the driver are replaced. They are private to \<open>Env\<close>: the code of a derived environment
  type can neither read nor write them.
\<close>

definition with_action :: "Array list option \<Rightarrow> nat \<Rightarrow> Array list \<Rightarrow> 'e world \<Rightarrow> 'e world" where
  "with_action b k r w = w\<lparr>drv := (drv w)\<lparr>action_batch := b, env_index := k, raw_action := r\<rparr>\<rparr>"

subsection \<open>A round of three environments\<close>

text \<open>
  Three environments with ids 0, 1 and 2 and a player cap of 2. The batch has the
  per-environment field \<open>env_id\<close>, the player-to-environment-id field and one per-player
  payload field of two cells per row, over five player rows. In the grouped store the id
  stamps are \<open>[0,0,1,2,2]\<close>, in the scattered store \<open>[0,1,0,2,2]\<close>.
\<close>

definition ex_spec :: EnvSpec where
  "ex_spec =
     \<lparr>max_num_players = 2, config_seed = 42,
      action_spec = [(''env_id'', \<lparr>shape = []\<rparr>), (''players.env_id'', \<lparr>shape = [- 1]\<rparr>),
                     (''action'', \<lparr>shape = [- 1, 2]\<rparr>)],
      state_spec = [(''done'', \<lparr>shape = []\<rparr>), (''info:env_id'', \<lparr>shape = []\<rparr>),
                    (''elapsed_step'', \<lparr>shape = []\<rparr>),
                    (''info:players.env_id'', \<lparr>shape = [- 1]\<rparr>),
                    (''obs'', \<lparr>shape = [- 1, 2]\<rparr>)]\<rparr>"

definition ex_batch :: "Array list" where
  "ex_batch = [\<lparr>buf = 0, offset = 0, dims = [3]\<rparr>, \<lparr>buf = 1, offset = 0, dims = [5]\<rparr>,
               \<lparr>buf = 2, offset = 0, dims = [5, 2]\<rparr>]"

definition ex_payload :: "cell list" where
  "ex_payload = map RawCell [10, 11, 20, 21, 30, 31, 40, 41, 50, 51]"

definition ex_store_grouped :: store where
  "ex_store_grouped = [map IntCell [0, 1, 2], map IntCell [0, 0, 1, 2, 2], ex_payload]"

definition ex_store_scattered :: store where
  "ex_store_scattered = [map IntCell [0, 1, 2], map IntCell [0, 1, 0, 2, 2], ex_payload]"

definition ex_env :: "cint \<Rightarrow> nat \<Rightarrow> Env" where
  "ex_env eid idx = SetAction (Env_new ex_spec eid) (Some ex_batch) idx"

text \<open>The same round for a driver whose environment type has a player cap of 1.\<close>

definition ex_env_single :: "cint \<Rightarrow> nat \<Rightarrow> Env" where
  "ex_env_single eid idx =
     SetAction (Env_new (ex_spec\<lparr>max_num_players := 1\<rparr>) eid) (Some ex_batch) idx"

text \<open>
  An environment type for the round above. Its own state is the number of steps of the
  episode; the episode is done after three steps. \<open>Reset\<close> and \<open>Step\<close> publish a state of
  two player rows.
\<close>

definition ex_IsDone :: "nat world \<Rightarrow> error + bool" where
  "ex_IsDone w = Inr (3 \<le> ext w)"

definition ex_Reset :: "nat world \<Rightarrow> error + nat world" where
  "ex_Reset w =
     (case Allocate ex_IsDone 2 (w\<lparr>ext := 0\<rparr>) of
        Inl e \<Rightarrow> Inl e
      | Inr (state, w') \<Rightarrow> Inr w')"

definition ex_Step :: "Array list \<Rightarrow> nat world \<Rightarrow> error + nat world" where
  "ex_Step action w =
     (case Allocate ex_IsDone 2 (w\<lparr>ext := ext w + 1\<rparr>) of
        Inl e \<Rightarrow> Inl e
      | Inr (state, w') \<Rightarrow> Inr w')"

definition ex_ops :: "nat EnvOps" where
  "ex_ops = \<lparr>Reset = ex_Reset, Step = ex_Step, IsDone = ex_IsDone\<rparr>"

definition ex_queue :: StateBufferQueue where
  "ex_queue = \<lparr>queue_addr = 0, field_specs = map snd (state_spec ex_spec), reserved = []\<rparr>"

definition ex_world :: "Env \<Rightarrow> store \<Rightarrow> nat world" where
  "ex_world d s = \<lparr>drv = d, ext = 0, heap = s, log = [], signalled = []\<rparr>"

text \<open>
  The world of the environment \<open>eid\<close> after a reset and one step at the ordinal \<open>ord\<close>,
  with three steps of the episode done.
\<close>

definition ex_world_stepped :: "cint \<Rightarrow> nat \<Rightarrow> nat world" where
  "ex_world_stepped eid ord =
     (ex_world (PreProcess (PreProcess (ex_env eid 0) ex_queue ord True) ex_queue ord False)
        ex_store_grouped)\<lparr>ext := 3\<rparr>"

lemmas ex_defs = ex_spec_def ex_batch_def ex_payload_def ex_store_grouped_def
  ex_store_scattered_def ex_env_def SetAction_def Env_new_def

section \<open>Properties\<close>

subsection \<open>Loops\<close>

lemma for_loop_stop: "\<not> i < n \<Longrightarrow> for_loop body i n acc = Inr acc"
  by (simp add: for_loop.simps)

lemma for_loop_step:
  "i < n \<Longrightarrow> for_loop body i n acc =
     (case body i acc of Inl e \<Rightarrow> Inl e | Inr acc' \<Rightarrow> for_loop body (Suc i) n acc')"
  by (subst for_loop.simps) (simp split: sum.splits)

lemma for_loop_invariant:
  assumes "for_loop body i n acc = Inr r"
    and "P i acc"
    and "i \<le> n"
    and "\<And>j a a'. i \<le> j \<Longrightarrow> j < n \<Longrightarrow> P j a \<Longrightarrow> body j a = Inr a' \<Longrightarrow> P (Suc j) a'"
  shows "P n r"
  using assms
proof (induction body i n acc rule: for_loop.induct)
  case (1 body i n acc)
  show ?case
  proof (cases "i < n")
    case False
    with "1.prems" show ?thesis by (simp add: for_loop_stop)
  next
    case True
    then obtain a' where b: "body i acc = Inr a'" and r: "for_loop body (Suc i) n a' = Inr r"
      using "1.prems"(1) by (auto simp: for_loop_step split: sum.splits)
    have "P (Suc i) a'" using "1.prems"(2,4) True b by blast
    moreover have "\<And>j a a'. Suc i \<le> j \<Longrightarrow> j < n \<Longrightarrow> P j a \<Longrightarrow> body j a = Inr a' \<Longrightarrow> P (Suc j) a'"
      using "1.prems"(4) by simp
    ultimately show ?thesis
      using "1.IH"[OF True b] r True by simp
  qed
qed

lemma for_loop_total:
  assumes "P i acc"
    and "i \<le> n"
    and "\<And>j a. i \<le> j \<Longrightarrow> j < n \<Longrightarrow> P j a \<Longrightarrow> \<exists>a'. body j a = Inr a' \<and> P (Suc j) a'"
  shows "\<exists>r. for_loop body i n acc = Inr r \<and> P n r"
  using assms
proof (induction body i n acc rule: for_loop.induct)
  case (1 body i n acc)
  show ?case
  proof (cases "i < n")
    case False
    with "1.prems" show ?thesis by (simp add: for_loop_stop)
  next
    case True
    then obtain a' where b: "body i acc = Inr a'" and p: "P (Suc i) a'"
      using "1.prems"(1,3) by blast
    have "\<And>j a. Suc i \<le> j \<Longrightarrow> j < n \<Longrightarrow> P j a \<Longrightarrow> \<exists>a'. body j a = Inr a' \<and> P (Suc j) a'"
      using "1.prems"(3) by simp
    then have "\<exists>r. for_loop body (i + 1) n a' = Inr r \<and> P n r"
      using "1.IH"[OF True b] p True by simp
    then show ?thesis using True b by (simp add: for_loop_step)
  qed
qed

lemma player_scan_exact:
  assumes "dims ids \<noteq> []" and "buf ids < length s"
    and "offset ids + hd (dims ids) \<le> length (s ! buf ids)"
  shows "player_scan s ids eid =
         Inr (filter (\<lambda>i. s ! buf ids ! (offset ids + i) = IntCell eid) [0..<hd (dims ids)])"
proof -
  let ?n = "hd (dims ids)"
  let ?P = "\<lambda>j idx. idx = filter (\<lambda>i. s ! buf ids ! (offset ids + i) = IntCell eid) [0..<j]"
  have sh: "Shape ids 0 = Inr ?n"
    using assms(1) by (cases "dims ids") (simp_all add: Shape_def)
  have "\<exists>r. for_loop (scan_body s ids eid) 0 ?n [] = Inr r \<and> ?P ?n r"
  proof (rule for_loop_total[where P = ?P])
    show "?P 0 []" by simp
    show "0 \<le> ?n" by simp
    fix j a assume "j < ?n" "?P j a"
    then show "\<exists>a'. scan_body s ids eid j a = Inr a' \<and> ?P (Suc j) a'"
      using assms(2,3) by (simp add: scan_body_def read_cell_def)
  qed
  then show ?thesis by (simp add: player_scan_def sh)
qed

subsection \<open>The player-id scan\<close>

text \<open>
  C1. In a multi-player environment \<open>ParseAction\<close> scans the second field of the attached
  batch. When that field lies in the store, the scan returns exactly the row indices whose
  stamped environment id equals the driver's \<open>env_id\<close>, in batch order: the result is the
  list of all rows filtered by that test, so its set is the set of matching rows and it is
  strictly increasing. This includes the case of no match, where the result is empty.
\<close>

theorem player_scan_selects_matching_rows:
  assumes "action_batch d = Some batch" and "1 < length batch"
    and "dims (batch ! 1) \<noteq> []" and "buf (batch ! 1) < length s"
    and "offset (batch ! 1) + hd (dims (batch ! 1)) \<le> length (s ! buf (batch ! 1))"
  shows "\<exists>idx. env_player_scan d s = Inr idx
           \<and> idx = filter (\<lambda>i. read_cell s (batch ! 1) i = Inr (IntCell (env_id d)))
                          [0..<hd (dims (batch ! 1))]
           \<and> set idx = {i. i < hd (dims (batch ! 1))
                            \<and> read_cell s (batch ! 1) i = Inr (IntCell (env_id d))}
           \<and> sorted_wrt (<) idx"
proof -
  let ?ids = "batch ! 1"
  let ?n = "hd (dims ?ids)"
  have rd: "\<And>i. i < ?n \<Longrightarrow> read_cell s ?ids i = Inr (s ! buf ?ids ! (offset ?ids + i))"
    using assms(4,5) by (simp add: read_cell_def)
  have "filter (\<lambda>i. s ! buf ?ids ! (offset ?ids + i) = IntCell (env_id d)) [0..<?n]
      = filter (\<lambda>i. read_cell s ?ids i = Inr (IntCell (env_id d))) [0..<?n]"
    by (rule filter_cong) (use rd in auto)
  then have "env_player_scan d s
      = Inr (filter (\<lambda>i. read_cell s ?ids i = Inr (IntCell (env_id d))) [0..<?n])"
    using assms player_scan_exact[OF assms(3,4,5), of "env_id d"]
    by (simp add: env_player_scan_def)
  moreover have "sorted_wrt (<) (filter (\<lambda>i. read_cell s ?ids i = Inr (IntCell (env_id d))) [0..<?n])"
    by (rule sorted_wrt_filter) (simp add: sorted_wrt_upt)
  ultimately show ?thesis by auto
qed

theorem player_scan_selects_matching_rows_witness:
  "action_batch (ex_env 0 0) = Some ex_batch \<and> 1 < length ex_batch
   \<and> dims (ex_batch ! 1) \<noteq> [] \<and> buf (ex_batch ! 1) < length ex_store_scattered
   \<and> offset (ex_batch ! 1) + hd (dims (ex_batch ! 1))
        \<le> length (ex_store_scattered ! buf (ex_batch ! 1))
   \<and> env_player_scan (ex_env 0 0) ex_store_scattered = Inr [0, 2]
   \<and> env_player_scan (ex_env 1 1) ex_store_scattered = Inr [1]
   \<and> env_player_scan (ex_env 7 0) ex_store_scattered = Inr []"
proof -
  have a: "action_batch (ex_env e k) = Some ex_batch" for e k
    by (simp add: ex_defs)
  have h: "1 < length ex_batch"
    "dims (ex_batch ! 1) \<noteq> []" "buf (ex_batch ! 1) < length ex_store_scattered"
    "offset (ex_batch ! 1) + hd (dims (ex_batch ! 1))
        \<le> length (ex_store_scattered ! buf (ex_batch ! 1))"
    by (simp_all add: ex_defs)
  have u: "[0..<5] = [0, 1, 2, 3, 4::nat]" by (simp add: upt_rec)
  show ?thesis
    using player_scan_selects_matching_rows[OF a[of 0 0] h]
      player_scan_selects_matching_rows[OF a[of 1 1] h]
      player_scan_selects_matching_rows[OF a[of 7 0] h] a[of 0 0]
    by (simp add: ex_defs read_cell_def u)
qed

subsection \<open>Contiguity detection\<close>

lemma player_scan_increasing:
  assumes "player_scan s ids eid = Inr idx"
  shows "sorted_wrt (<) idx"
proof -
  obtain n where lp: "for_loop (scan_body s ids eid) 0 n [] = Inr idx"
    using assms by (auto simp: player_scan_def split: sum.splits)
  let ?P = "\<lambda>j xs. sorted_wrt (<) xs \<and> (\<forall>x\<in>set xs. x < j)"
  have "?P n idx"
  proof (rule for_loop_invariant[where P = ?P, OF lp])
    show "?P 0 []" by simp
    show "0 \<le> n" by simp
    fix j a a' assume "?P j a" "scan_body s ids eid j a = Inr a'"
    then show "?P (Suc j) a'"
      by (auto simp: scan_body_def sorted_wrt_append less_Suc_eq split: sum.splits if_splits)
  qed
  then show ?thesis by simp
qed

lemma increasing_span:
  "sorted_wrt (<) xs \<Longrightarrow> xs \<noteq> [] \<Longrightarrow> hd xs + length xs \<le> last xs + (1::nat)"
proof (induction xs)
  case Nil
  then show ?case by simp
next
  case (Cons x xs)
  show ?case
  proof (cases xs)
    case Nil
    then show ?thesis by simp
  next
    case (Cons y ys)
    with Cons.prems have "x < hd xs" by simp
    moreover have "hd xs + length xs \<le> last xs + 1"
      using Cons.IH Cons.prems Cons by simp
    ultimately show ?thesis using Cons by simp
  qed
qed

lemma increasing_run:
  "sorted_wrt (<) xs \<Longrightarrow> xs \<noteq> [] \<Longrightarrow>
     (xs = [a..<a + length xs]) = (hd xs = a \<and> last xs + 1 = a + length xs)"
proof (induction xs arbitrary: a)
  case Nil
  then show ?case by simp
next
  case (Cons x xs)
  show ?case
  proof (cases xs)
    case Nil
    then show ?thesis by (auto simp: upt_rec)
  next
    case (Cons y ys)
    have s: "sorted_wrt (<) xs" and ne: "xs \<noteq> []" and lt: "x < hd xs"
      using Cons.prems Cons by simp_all
    have span: "hd xs + length xs \<le> last xs + 1"
      by (rule increasing_span[OF s ne])
    have u: "[a..<a + length (x # xs)] = a # [Suc a..<Suc a + length xs]"
      by (simp add: upt_rec)
    have "(x # xs = [a..<a + length (x # xs)]) = (x = a \<and> xs = [Suc a..<Suc a + length xs])"
      unfolding u by simp
    also have "\<dots> = (x = a \<and> hd xs = Suc a \<and> last xs + 1 = Suc a + length xs)"
      using Cons.IH[OF s ne, of "Suc a"] by simp
    also have "\<dots> = (hd (x # xs) = a \<and> last (x # xs) + 1 = a + length (x # xs))"
      using lt span ne by auto
    finally show ?thesis .
  qed
qed

subsection \<open>The slice and the gather\<close>

lemma concat_rows_run:
  "concat (map (\<lambda>k. take r (drop (off + k * r) xs)) [a..<a + n])
     = take (n * r) (drop (off + a * r) xs)"
proof (induction n)
  case 0
  then show ?case by simp
next
  case (Suc n)
  have "take (n * r + r) (drop (off + a * r) xs)
      = take (n * r) (drop (off + a * r) xs) @ take r (drop (n * r) (drop (off + a * r) xs))"
    by (rule take_add)
  moreover have "drop (n * r) (drop (off + a * r) xs) = drop (off + (a + n) * r) xs"
    by (simp add: algebra_simps)
  ultimately show ?case using Suc by (simp add: ac_simps)
qed

lemma Index_Inr:
  "Index a i = Inr r \<Longrightarrow>
     dims a \<noteq> [] \<and> i < hd (dims a) \<and> buf r = buf a \<and> offset r = offset a + i * row_size a
     \<and> dims r = tl (dims a) \<and> size_of r = row_size a"
  by (auto simp: Index_def size_of_def row_size_def split: if_splits)

lemma Slice_Inr:
  "Slice a b e = Inr v \<Longrightarrow>
     dims a \<noteq> [] \<and> b \<le> e \<and> e \<le> hd (dims a) \<and> buf v = buf a
     \<and> offset v = offset a + b * row_size a \<and> dims v = (e - b) # tl (dims a)
     \<and> size_of v = (e - b) * row_size a"
  by (auto simp: Slice_def size_of_def row_size_def split: if_splits)

lemma Assign_Inr:
  "Assign s tgt src = Inr s' \<Longrightarrow>
     in_store s tgt \<and> in_store s src \<and> size_of tgt = size_of src
     \<and> s' = s[buf tgt := write_at (s ! buf tgt) (offset tgt) (contents s src)]"
  by (auto simp: Assign_def split: if_splits)

lemma gather_step:
  assumes f: "buf f < length s"
    and j: "j < length idx"
    and st: "st = s @ [done @ replicate ((length idx - j) * r') fill]"
    and dn: "length done = j * r'"
    and body: "gather_body \<lparr>buf = length s, offset = 0, dims = length idx # rest\<rparr> f idx j st = Inr st'"
    and r': "r' = prod_list rest"
  shows "st' = s @ [(done @ take (row_size f) (drop (offset f + idx ! j * row_size f) (s ! buf f)))
                     @ replicate ((length idx - Suc j) * r') fill]
         \<and> length (take (row_size f) (drop (offset f + idx ! j * row_size f) (s ! buf f))) = r'"
proof -
  let ?a = "\<lparr>buf = length s, offset = 0, dims = length idx # rest\<rparr>"
  let ?row = "take (row_size f) (drop (offset f + idx ! j * row_size f) (s ! buf f))"
  obtain tgt src where t: "Index ?a j = Inr tgt" and sr: "Index f (idx ! j) = Inr src"
    and as: "Assign st tgt src = Inr st'"
    using body by (auto simp: gather_body_def Let_def split: sum.splits)
  have tg: "buf tgt = length s" "offset tgt = j * r'" "size_of tgt = r'"
    using Index_Inr[OF t] r' by (simp_all add: row_size_def)
  have sc: "buf src = buf f" "offset src = offset f + idx ! j * row_size f"
    "size_of src = row_size f"
    using Index_Inr[OF sr] by simp_all
  note A = Assign_Inr[OF as]
  have rr: "r' = row_size f" using A tg sc by simp
  have bf: "st ! buf f = s ! buf f" using f st by (simp add: nth_append)
  have cs: "contents st src = ?row"
    by (simp add: contents_def sc bf)
  have "offset src + size_of src \<le> length (st ! buf src)"
    using A by (simp add: in_store_def)
  then have len: "length ?row = r'"
    using sc bf rr by simp
  have top: "st ! length s = done @ replicate ((length idx - j) * r') fill"
    using st by simp
  have dr: "drop (j * r' + r') (done @ replicate ((length idx - j) * r') fill)
      = replicate ((length idx - Suc j) * r') fill"
    using dn j by (simp add: diff_mult_distrib)
  have "write_at (st ! length s) (j * r') ?row
      = done @ ?row @ replicate ((length idx - Suc j) * r') fill"
    using dn len dr by (simp add: write_at_def top)
  then have "st' = s @ [done @ ?row @ replicate ((length idx - Suc j) * r') fill]"
    using A tg cs st by simp
  then show ?thesis using len by simp
qed

lemma gather_loop:
  assumes f: "buf f < length s"
    and loop: "for_loop (gather_body \<lparr>buf = length s, offset = 0, dims = length idx # rest\<rparr> f idx)
                 0 (length idx) (s @ [replicate (length idx * prod_list rest) fill]) = Inr s2"
  shows "s2 = s @ [concat (map (\<lambda>k. take (row_size f) (drop (offset f + k * row_size f) (s ! buf f))) idx)]
       \<and> length (concat (map (\<lambda>k. take (row_size f) (drop (offset f + k * row_size f) (s ! buf f))) idx))
           = length idx * prod_list rest"
proof -
  let ?r' = "prod_list rest"
  let ?row = "\<lambda>k. take (row_size f) (drop (offset f + k * row_size f) (s ! buf f))"
  let ?P = "\<lambda>j st. st = s @ [concat (map ?row (take j idx)) @ replicate ((length idx - j) * ?r') fill]
                  \<and> length (concat (map ?row (take j idx))) = j * ?r'"
  have "?P (length idx) s2"
  proof (rule for_loop_invariant[where P = ?P, OF loop])
    show "?P 0 (s @ [replicate (length idx * ?r') fill])" by simp
    show "0 \<le> length idx" by simp
    fix j st st'
    assume j: "j < length idx" and p: "?P j st"
      and b: "gather_body \<lparr>buf = length s, offset = 0, dims = length idx # rest\<rparr> f idx j st = Inr st'"
    have g: "st' = s @ [(concat (map ?row (take j idx)) @ ?row (idx ! j))
                     @ replicate ((length idx - Suc j) * ?r') fill]
         \<and> length (?row (idx ! j)) = ?r'"
      using gather_step[OF f j _ _ b, of "concat (map ?row (take j idx))" ?r' fill] p by simp
    have tk: "take (Suc j) idx = take j idx @ [idx ! j]"
      using j by (simp add: take_Suc_conv_app_nth)
    show "?P (Suc j) st'"
      using g p by (simp add: tk)
  qed
  then show ?thesis by simp
qed

lemma gather_entry_Inr:
  assumes f: "buf (batch ! i) < length s"
    and g: "gather_entry batch idx i (d, s) = Inr (d', s')"
  shows "\<exists>a. raw_action d' = raw_action d @ [a] \<and> buf a = length s \<and> offset a = 0
           \<and> dims a \<noteq> [] \<and> hd (dims a) = length idx
           \<and> s' = s @ [concat (map (\<lambda>k. take (row_size (batch ! i))
                     (drop (offset (batch ! i) + k * row_size (batch ! i)) (s ! buf (batch ! i)))) idx)]
           \<and> contents s' a = concat (map (\<lambda>k. take (row_size (batch ! i))
                     (drop (offset (batch ! i) + k * row_size (batch ! i)) (s ! buf (batch ! i)))) idx)"
proof -
  let ?f = "batch ! i"
  let ?sh = "shape (action_specs d ! i)"
  let ?sp = "(action_specs d ! i)\<lparr>shape := ?sh[0 := int (length idx)]\<rparr>"
  let ?rest = "map nat (tl ?sh)"
  let ?a = "\<lparr>buf = length s, offset = 0, dims = length idx # ?rest\<rparr>"
  let ?rows = "concat (map (\<lambda>k. take (row_size ?f) (drop (offset ?f + k * row_size ?f) (s ! buf ?f))) idx)"
  have ne: "i < length (action_specs d)" "?sh \<noteq> []"
    using g by (auto simp: Let_def split: if_splits)
  then obtain x xs where sh: "?sh = x # xs" by (cases ?sh) auto
  have msh: "map nat (shape ?sp) = length idx # ?rest"
    by (simp add: sh)
  obtain a s1 where na: "new_Array ?sp s = Inr (a, s1)"
    using g ne by (auto simp: Let_def split: sum.splits)
  have a: "a = ?a" and s1: "s1 = s @ [replicate (length idx * prod_list ?rest) (RawCell 0)]"
    using na msh by (auto simp: new_Array_def split: if_splits)
  obtain s2 where lp: "for_loop (gather_body a ?f idx) 0 (length idx) s1 = Inr s2"
    and d': "d' = (d\<lparr>action_specs := (action_specs d)[i := ?sp]\<rparr>)
                    \<lparr>raw_action := raw_action d @ [a]\<rparr>" and s': "s' = s2"
    using g ne na by (auto simp: Let_def split: sum.splits)
  have L: "s2 = s @ [?rows] \<and> length ?rows = length idx * prod_list ?rest"
    using gather_loop[OF f, of idx ?rest "RawCell 0" s2] lp a s1 by simp
  have "contents s2 a = ?rows"
    using L a by (simp add: contents_def size_of_def)
  then show ?thesis
    using L a d' s' by simp
qed

text \<open>
  C3. Let the matched indices be contiguous, \<open>[start, end)\<close>, so that both paths apply to
  a per-player field \<open>i\<close> that lies in the store. Then the entry that the per-row gather of
  lines 113 to 119 appends to the raw action holds, in the store after the gather, exactly
  the cells that the zero-copy slice \<open>Slice(start, end)\<close> of line 111 denotes, element for
  element, and both have the same number of rows.
\<close>

theorem slice_and_gather_agree:
  assumes "in_store s (batch ! i)"
    and "env_player_index = [start..<end]"
    and "Slice (batch ! i) start end = Inr v"
    and "gather_entry batch env_player_index i (d, s) = Inr (d', s')"
  shows "\<exists>a. raw_action d' = raw_action d @ [a]
           \<and> contents s' a = contents s v
           \<and> hd (dims a) = hd (dims v)"
proof -
  let ?f = "batch ! i"
  have f: "buf ?f < length s" using assms(1) by (simp add: in_store_def)
  note S = Slice_Inr[OF assms(3)]
  have run: "env_player_index = [start..<start + (end - start)]"
    using assms(2) S by simp
  have len: "length env_player_index = end - start"
    using assms(2) by simp
  obtain a where a: "raw_action d' = raw_action d @ [a]" "hd (dims a) = length env_player_index"
    and c: "contents s' a = concat (map (\<lambda>k. take (row_size ?f)
                     (drop (offset ?f + k * row_size ?f) (s ! buf ?f))) env_player_index)"
    using gather_entry_Inr[OF f assms(4)] by blast
  have "concat (map (\<lambda>k. take (row_size ?f) (drop (offset ?f + k * row_size ?f) (s ! buf ?f)))
                  [start..<start + (end - start)])
      = take ((end - start) * row_size ?f) (drop (offset ?f + start * row_size ?f) (s ! buf ?f))"
    by (rule concat_rows_run)
  also have "\<dots> = contents s v"
    using S by (simp add: contents_def)
  finally have "contents s' a = contents s v"
    using c run by simp
  then show ?thesis using a S len by auto
qed

theorem slice_and_gather_agree_witness:
  "in_store ex_store_grouped (ex_batch ! 2) \<and> [0, 1] = [0..<2]
   \<and> Slice (ex_batch ! 2) 0 2 = Inr \<lparr>buf = 2, offset = 0, dims = [2, 2]\<rparr>
   \<and> (case gather_entry ex_batch [0, 1] 2 (ex_env 0 0, ex_store_grouped) of
        Inl e \<Rightarrow> False
      | Inr (d', s') \<Rightarrow>
          raw_action d' = [\<lparr>buf = 3, offset = 0, dims = [2, 2]\<rparr>]
          \<and> contents s' \<lparr>buf = 3, offset = 0, dims = [2, 2]\<rparr>
              = contents ex_store_grouped \<lparr>buf = 2, offset = 0, dims = [2, 2]\<rparr>)
   \<and> contents ex_store_grouped \<lparr>buf = 2, offset = 0, dims = [2, 2]\<rparr>
        = map RawCell [10, 11, 20, 21]"
proof -
  have i: "in_store ex_store_grouped (ex_batch ! 2)"
    by code_simp
  have r: "[0, 1] = [0..<2::nat]" by (simp add: upt_rec)
  have sl: "Slice (ex_batch ! 2) 0 2 = Inr \<lparr>buf = 2, offset = 0, dims = [2, 2]\<rparr>"
    by code_simp
  have "map_sum id (\<lambda>(d', s'). raw_action d')
          (gather_entry ex_batch [0, 1] 2 (ex_env 0 0, ex_store_grouped))
        = Inr [\<lparr>buf = 3, offset = 0, dims = [2, 2]\<rparr>]"
    by code_simp
  then obtain d' s' where g: "gather_entry ex_batch [0, 1] 2 (ex_env 0 0, ex_store_grouped) = Inr (d', s')"
    and ra: "raw_action d' = [\<lparr>buf = 3, offset = 0, dims = [2, 2]\<rparr>]"
    by (cases "gather_entry ex_batch [0, 1] 2 (ex_env 0 0, ex_store_grouped)") auto
  have c: "contents ex_store_grouped \<lparr>buf = 2, offset = 0, dims = [2, 2]\<rparr> = map RawCell [10, 11, 20, 21]"
    by code_simp
  show ?thesis
    using slice_and_gather_agree[OF i r sl g] i r sl g ra c by simp
qed

subsection \<open>One iteration of the field loops\<close>

lemma single_body_Inr:
  assumes "single_body batch i (d, s) = Inr (d', s')"
  shows "s' = s \<and> i < length (is_player_action d)
       \<and> (\<exists>v. d' = d\<lparr>raw_action := raw_action d @ [v]\<rparr>
              \<and> (if is_player_action d ! i
                  then Slice (batch ! i) (env_index d) (env_index d + 1) = Inr v
                  else Index (batch ! i) (env_index d) = Inr v))"
  using assms by (auto split: if_splits sum.splits)

lemma gather_body_frame:
  assumes "gather_body a f idx j st = Inr st'"
  shows "length st' = length st \<and> (\<forall>k. k \<noteq> buf a \<longrightarrow> st' ! k = st ! k)"
proof -
  obtain tgt src where t: "Index a j = Inr tgt" and as: "Assign st tgt src = Inr st'"
    using assms by (auto simp: gather_body_def Let_def split: sum.splits)
  have "buf tgt = buf a" using Index_Inr[OF t] by simp
  then show ?thesis using Assign_Inr[OF as] by simp
qed

lemma gather_loop_frame:
  assumes "for_loop (gather_body a f idx) 0 n st = Inr st'"
  shows "length st' = length st \<and> (\<forall>k. k \<noteq> buf a \<longrightarrow> st' ! k = st ! k)"
proof -
  let ?P = "\<lambda>j::nat. \<lambda>x. length x = length st \<and> (\<forall>k. k \<noteq> buf a \<longrightarrow> x ! k = st ! k)"
  have "?P n st'"
  proof (rule for_loop_invariant[where P = ?P, OF assms])
    show "?P 0 st" by simp
    show "0 \<le> n" by simp
    fix j x x' assume "?P j x" "gather_body a f idx j x = Inr x'"
    then show "?P (Suc j) x'"
      using gather_body_frame[of a f idx j x x'] by simp
  qed
  then show ?thesis .
qed

lemma gather_entry_frame:
  assumes g: "gather_entry batch idx i (d, s) = Inr (d', s')"
  shows "\<exists>a. d' = d\<lparr>action_specs := action_specs d', raw_action := raw_action d @ [a]\<rparr>
           \<and> length (action_specs d') = length (action_specs d)
           \<and> (\<forall>k. k \<noteq> i \<longrightarrow> action_specs d' ! k = action_specs d ! k)
           \<and> length s' = Suc (length s) \<and> take (length s) s' = s
           \<and> dims a \<noteq> [] \<and> hd (dims a) = length idx \<and> buf a = length s \<and> offset a = 0"
proof -
  let ?sh = "shape (action_specs d ! i)"
  let ?sp = "(action_specs d ! i)\<lparr>shape := ?sh[0 := int (length idx)]\<rparr>"
  have ne: "i < length (action_specs d)" "?sh \<noteq> []"
    using g by (auto simp: Let_def split: if_splits)
  then obtain x xs where sh: "?sh = x # xs" by (cases ?sh) auto
  obtain a s1 where na: "new_Array ?sp s = Inr (a, s1)"
    using g ne by (auto simp: Let_def split: sum.splits)
  have a: "buf a = length s" "offset a = 0" "dims a = length idx # map nat xs"
    and s1: "length s1 = Suc (length s)" "take (length s) s1 = s"
    using na sh by (auto simp: new_Array_def split: if_splits)
  obtain s2 where lp: "for_loop (gather_body a (batch ! i) idx) 0 (length idx) s1 = Inr s2"
    and d': "d' = (d\<lparr>action_specs := (action_specs d)[i := ?sp]\<rparr>)
                    \<lparr>raw_action := raw_action d @ [a]\<rparr>" and s': "s' = s2"
    using g ne na by (auto simp: Let_def split: sum.splits)
  note F = gather_loop_frame[OF lp]
  have "take (length s) s2 = take (length s) s1"
    by (rule nth_take_lemma) (use F a s1 in auto)
  then have "length s' = Suc (length s) \<and> take (length s) s' = s"
    using F s1 s' by simp
  moreover have "d' = d\<lparr>action_specs := action_specs d', raw_action := raw_action d @ [a]\<rparr>"
    using d' by simp
  moreover have "length (action_specs d') = length (action_specs d)
           \<and> (\<forall>k. k \<noteq> i \<longrightarrow> action_specs d' ! k = action_specs d ! k)"
    using d' by simp
  ultimately show ?thesis using a by auto
qed

lemma multi_body_Inr:
  assumes m: "multi_body batch idx c st en i (d, s) = Inr (d', s')"
  shows "\<exists>v. d' = d\<lparr>action_specs := action_specs d', raw_action := raw_action d @ [v]\<rparr>
           \<and> length (action_specs d') = length (action_specs d)
           \<and> (\<forall>k. k \<noteq> i \<longrightarrow> action_specs d' ! k = action_specs d ! k)
           \<and> length s \<le> length s' \<and> take (length s) s' = s
           \<and> i < length (is_player_action d)
           \<and> (if is_player_action d ! i
               then (if c then Slice (batch ! i) st en = Inr v \<and> s' = s
                     else gather_entry batch idx i (d, s) = Inr (d', s')
                          \<and> dims v \<noteq> [] \<and> hd (dims v) = length idx \<and> buf v = length s
                          \<and> offset v = 0)
               else Index (batch ! i) (env_index d) = Inr v \<and> s' = s)"
proof -
  have i: "i < length (is_player_action d)"
    using m by (auto split: if_splits)
  show ?thesis
  proof (cases "is_player_action d ! i \<and> \<not> c")
    case True
    then have g: "gather_entry batch idx i (d, s) = Inr (d', s')"
      using m i by simp
    from gather_entry_frame[OF g] obtain a where
      "d' = d\<lparr>action_specs := action_specs d', raw_action := raw_action d @ [a]\<rparr>"
      "length (action_specs d') = length (action_specs d)"
      "\<forall>k. k \<noteq> i \<longrightarrow> action_specs d' ! k = action_specs d ! k"
      "length s' = Suc (length s)" "take (length s) s' = s"
      "dims a \<noteq> []" "hd (dims a) = length idx" "buf a = length s" "offset a = 0"
      by blast
    then show ?thesis using True g i
      by (intro exI[of _ a]) simp
  next
    case False
    then obtain v where "d' = d\<lparr>raw_action := raw_action d @ [v]\<rparr>" "s' = s"
      "if is_player_action d ! i then Slice (batch ! i) st en = Inr v
       else Index (batch ! i) (env_index d) = Inr v"
      using m i by (auto split: if_splits sum.splits)
    then show ?thesis using False i
      by (intro exI[of _ v]) auto
  qed
qed

subsection \<open>The field loops of ParseAction\<close>

lemma single_loop_Inr:
  assumes lp: "for_loop (single_body batch) 0 n (d0, s) = Inr (d', s')"
    and r0: "raw_action d0 = []"
  shows "s' = s \<and> d' = d0\<lparr>raw_action := raw_action d'\<rparr> \<and> length (raw_action d') = n
       \<and> (\<forall>i<n. i < length (is_player_action d0)
              \<and> (if is_player_action d0 ! i
                  then Slice (batch ! i) (env_index d0) (env_index d0 + 1) = Inr (raw_action d' ! i)
                  else Index (batch ! i) (env_index d0) = Inr (raw_action d' ! i)))"
proof -
  let ?Q = "\<lambda>i v. i < length (is_player_action d0)
              \<and> (if is_player_action d0 ! i
                  then Slice (batch ! i) (env_index d0) (env_index d0 + 1) = Inr v
                  else Index (batch ! i) (env_index d0) = Inr v)"
  let ?P = "\<lambda>j x. snd x = s \<and> fst x = d0\<lparr>raw_action := raw_action (fst x)\<rparr>
              \<and> length (raw_action (fst x)) = j \<and> (\<forall>i<j. ?Q i (raw_action (fst x) ! i))"
  have "?P n (d', s')"
  proof (rule for_loop_invariant[where P = ?P, OF lp])
    show "?P 0 (d0, s)" using r0 by simp
    show "0 \<le> n" by simp
    fix j x x' assume p: "?P j x" and b: "single_body batch j x = Inr x'"
    obtain d1 s1 where x: "x = (d1, s1)" by (cases x)
    obtain d2 s2 where x': "x' = (d2, s2)" by (cases x')
    have d1: "d1 = d0\<lparr>raw_action := raw_action d1\<rparr>" and s1: "s1 = s"
      and len: "length (raw_action d1) = j" and pq: "\<forall>i<j. ?Q i (raw_action d1 ! i)"
      using p unfolding x fst_conv snd_conv by blast+
    have sel: "is_player_action d1 = is_player_action d0" "env_index d1 = env_index d0"
      by (subst d1, simp)+
    have "s2 = s1 \<and> j < length (is_player_action d0)
       \<and> (\<exists>v. d2 = d1\<lparr>raw_action := raw_action d1 @ [v]\<rparr>
              \<and> (if is_player_action d0 ! j
                  then Slice (batch ! j) (env_index d0) (env_index d0 + 1) = Inr v
                  else Index (batch ! j) (env_index d0) = Inr v))"
      using single_body_Inr[OF b[unfolded x x']] unfolding sel .
    then obtain v where
      s2: "s2 = s1" and v: "d2 = d1\<lparr>raw_action := raw_action d1 @ [v]\<rparr>" and q: "?Q j v"
      by blast
    have "d2 = d0\<lparr>raw_action := raw_action d2\<rparr>"
      by (subst v, subst d1, simp add: v)
    moreover have rv: "raw_action d2 = raw_action d1 @ [v]"
      by (subst v) simp
    have "\<forall>i<Suc j. ?Q i (raw_action d2 ! i)"
    proof (intro allI impI)
      fix i assume "i < Suc j"
      then consider "i < j" | "i = j" by linarith
      then show "?Q i (raw_action d2 ! i)"
      proof cases
        case 1
        then have e: "raw_action d2 ! i = raw_action d1 ! i"
          using len rv by (simp add: nth_append)
        have "?Q i (raw_action d1 ! i)" using pq 1 by blast
        then show ?thesis unfolding e .
      next
        case 2
        have e: "raw_action d2 ! j = v"
          using len rv by (simp add: nth_append)
        show ?thesis unfolding e 2 by (rule q)
      qed
    qed
    moreover have "length (raw_action d2) = Suc j" using len rv by simp
    moreover have "s2 = s" using s1 s2 by simp
    ultimately show "?P (Suc j) x'"
      unfolding x' fst_conv snd_conv by blast
  qed
  then show ?thesis unfolding fst_conv snd_conv .
qed

lemma multi_loop_Inr:
  assumes lp: "for_loop (multi_body batch idx c st en) 0 n (d0, s) = Inr (d', s')"
    and r0: "raw_action d0 = []"
  shows "d' = d0\<lparr>action_specs := action_specs d', raw_action := raw_action d'\<rparr>
       \<and> length (raw_action d') = n \<and> length s \<le> length s' \<and> take (length s) s' = s
       \<and> (\<forall>i<n. i < length (is_player_action d0)
              \<and> (if is_player_action d0 ! i
                  then (if c then Slice (batch ! i) st en = Inr (raw_action d' ! i)
                        else dims (raw_action d' ! i) \<noteq> []
                             \<and> hd (dims (raw_action d' ! i)) = length idx
                             \<and> length s \<le> buf (raw_action d' ! i)
                             \<and> offset (raw_action d' ! i) = 0)
                  else Index (batch ! i) (env_index d0) = Inr (raw_action d' ! i)))"
proof -
  let ?Q = "\<lambda>i v. i < length (is_player_action d0)
              \<and> (if is_player_action d0 ! i
                  then (if c then Slice (batch ! i) st en = Inr v
                        else dims v \<noteq> [] \<and> hd (dims v) = length idx \<and> length s \<le> buf v
                             \<and> offset v = 0)
                  else Index (batch ! i) (env_index d0) = Inr v)"
  let ?P = "\<lambda>j x. fst x = d0\<lparr>action_specs := action_specs (fst x), raw_action := raw_action (fst x)\<rparr>
              \<and> length (raw_action (fst x)) = j
              \<and> length s \<le> length (snd x) \<and> take (length s) (snd x) = s
              \<and> (\<forall>i<j. ?Q i (raw_action (fst x) ! i))"
  have "?P n (d', s')"
  proof (rule for_loop_invariant[where P = ?P, OF lp])
    show "?P 0 (d0, s)" using r0 by simp
    show "0 \<le> n" by simp
    fix j x x' assume p: "?P j x" and b: "multi_body batch idx c st en j x = Inr x'"
    obtain d1 s1 where x: "x = (d1, s1)" by (cases x)
    obtain d2 s2 where x': "x' = (d2, s2)" by (cases x')
    have d1: "d1 = d0\<lparr>action_specs := action_specs d1, raw_action := raw_action d1\<rparr>"
      and s1: "length s \<le> length s1" "take (length s) s1 = s"
      and len: "length (raw_action d1) = j" and pq: "\<forall>i<j. ?Q i (raw_action d1 ! i)"
      using p unfolding x fst_conv snd_conv by blast+
    have sel: "is_player_action d1 = is_player_action d0" "env_index d1 = env_index d0"
      by (subst d1, simp)+
    from multi_body_Inr[OF b[unfolded x x']] obtain v where
      v: "d2 = d1\<lparr>action_specs := action_specs d2, raw_action := raw_action d1 @ [v]\<rparr>"
      and s2: "length s1 \<le> length s2" "take (length s1) s2 = s1"
      and i: "j < length (is_player_action d1)"
      and q: "if is_player_action d1 ! j
               then (if c then Slice (batch ! j) st en = Inr v \<and> s2 = s1
                     else gather_entry batch idx j (d1, s1) = Inr (d2, s2)
                          \<and> dims v \<noteq> [] \<and> hd (dims v) = length idx \<and> buf v = length s1
                          \<and> offset v = 0)
               else Index (batch ! j) (env_index d1) = Inr v \<and> s2 = s1"
      by blast
    have rv: "raw_action d2 = raw_action d1 @ [v]"
      by (subst v) simp
    have "d2 = d0\<lparr>action_specs := action_specs d2, raw_action := raw_action d2\<rparr>"
      by (subst v, subst d1, simp add: rv)
    moreover have "length (raw_action d2) = Suc j"
      using len rv by simp
    moreover have "length s \<le> length s2"
      using s1 s2 by simp
    moreover have "take (length s) s2 = s"
    proof -
      have "take (length s) (take (length s1) s2) = take (length s) s2"
        using s1(1) by (simp add: min_def)
      then show ?thesis using s2(2) s1(2) by simp
    qed
    moreover have "\<forall>i<Suc j. ?Q i (raw_action d2 ! i)"
    proof (intro allI impI)
      fix i assume "i < Suc j"
      then consider "i < j" | "i = j" by linarith
      then show "?Q i (raw_action d2 ! i)"
      proof cases
        case 1
        then have e: "raw_action d2 ! i = raw_action d1 ! i"
          using len rv by (simp add: nth_append)
        have "?Q i (raw_action d1 ! i)" using pq 1 by blast
        then show ?thesis unfolding e .
      next
        case 2
        have e: "raw_action d2 ! j = v"
          using len rv by (simp add: nth_append)
        have "?Q j v"
          using q i s1 unfolding sel by (auto split: if_splits)
        then show ?thesis unfolding e 2 .
      qed
    qed
    ultimately show "?P (Suc j) x'"
      unfolding x' fst_conv snd_conv by blast
  qed
  then show ?thesis unfolding fst_conv snd_conv .
qed

subsection \<open>The raw action\<close>

lemma ParseAction_unfold:
  assumes "action_batch d = Some batch"
  shows "ParseAction d s =
     (if is_single_player d
      then for_loop (single_body batch) 0 (length batch) (d\<lparr>raw_action := []\<rparr>, s)
      else (case env_player_scan d s of
              Inl e \<Rightarrow> Inl e
            | Inr idx \<Rightarrow>
                for_loop (multi_body batch idx (fst (contiguity idx)) (fst (snd (contiguity idx)))
                            (snd (snd (contiguity idx))))
                  0 (length batch) (d\<lparr>raw_action := []\<rparr>, s)))"
  using assms by (simp add: ParseAction_def Let_def split: prod.splits sum.splits)

lemma ParseAction_attached:
  "ParseAction d s = Inr r \<Longrightarrow> \<exists>batch. action_batch d = Some batch"
  by (cases "action_batch d") (simp_all add: ParseAction_def)

lemma Slice_one_row: "Slice a k (k + 1) = Inr v \<Longrightarrow> hd (dims v) = 1"
  using Slice_Inr[of a k "k + 1" v] by simp

lemma single_loop_total:
  assumes "n \<le> length (is_player_action d0)"
    and "\<And>i. i < n \<Longrightarrow> dims (batch ! i) \<noteq> [] \<and> env_index d0 < hd (dims (batch ! i))"
  shows "\<exists>r. for_loop (single_body batch) 0 n (d0, s) = Inr r"
proof -
  let ?P = "\<lambda>j::nat. \<lambda>x::Env \<times> store. is_player_action (fst x) = is_player_action d0
                         \<and> env_index (fst x) = env_index d0"
  have "\<exists>r. for_loop (single_body batch) 0 n (d0, s) = Inr r \<and> ?P n r"
  proof (rule for_loop_total[where P = ?P])
    show "?P 0 (d0, s)" by simp
    show "0 \<le> n" by simp
    fix j x assume j: "j < n" and p: "?P j x"
    obtain d1 s1 where x: "x = (d1, s1)" by (cases x)
    have "dims (batch ! j) \<noteq> []" "env_index d0 < hd (dims (batch ! j))"
      using assms(2)[OF j] by simp_all
    then show "\<exists>a'. single_body batch j x = Inr a' \<and> ?P (Suc j) a'"
      using p j assms(1) unfolding x by (simp add: Slice_def Index_def)
  qed
  then show ?thesis by blast
qed

subsection \<open>The action batch is not written\<close>

lemma contents_same_buffer:
  "s' ! buf f = s ! buf f \<Longrightarrow> contents s' f = contents s f"
  by (simp add: contents_def)

text \<open>
  C8. Whenever \<open>ParseAction\<close> returns, the attached batch is the same vector of arrays as
  before, with the same shapes, and every buffer that existed before the call holds the same
  cells after it: the slice and single-row entries are views and write nothing, and the
  gather writes only into the buffer it has just allocated. Hence every field of the batch
  that lay in the store still does, with the same contents.
\<close>

theorem ParseAction_leaves_batch_unchanged:
  assumes "ParseAction d s = Inr (d', s')"
  shows "action_batch d' = action_batch d
       \<and> length s \<le> length s' \<and> take (length s) s' = s
       \<and> (\<exists>batch. action_batch d = Some batch
             \<and> (\<forall>f\<in>set batch. in_store s f \<longrightarrow> in_store s' f \<and> contents s' f = contents s f))"
proof -
  obtain batch where b: "action_batch d = Some batch"
    using ParseAction_attached[OF assms] by blast
  let ?d0 = "d\<lparr>raw_action := []\<rparr>"
  have fr: "d' = ?d0\<lparr>action_specs := action_specs d', raw_action := raw_action d'\<rparr>
       \<and> length s \<le> length s' \<and> take (length s) s' = s"
  proof (cases "is_single_player d")
    case True
    then have "for_loop (single_body batch) 0 (length batch) (?d0, s) = Inr (d', s')"
      using assms by (simp add: ParseAction_unfold[OF b])
    from single_loop_Inr[OF this] have "s' = s" "d' = ?d0\<lparr>raw_action := raw_action d'\<rparr>"
      by simp_all
    then show ?thesis
      by (metis (no_types) Env.surjective Env.update_convs(6) Env.update_convs(9) order_refl
          take_all Env.select_convs(6))
  next
    case False
    then obtain idx where "for_loop (multi_body batch idx (fst (contiguity idx))
        (fst (snd (contiguity idx))) (snd (snd (contiguity idx)))) 0 (length batch) (?d0, s)
          = Inr (d', s')"
      using assms by (auto simp: ParseAction_unfold[OF b] split: sum.splits)
    from multi_loop_Inr[OF this] show ?thesis by simp
  qed
  have ab: "action_batch d' = action_batch d"
    by (subst conjunct1[OF fr]) simp
  have same: "s' ! a = s ! a" if "a < length s" for a
  proof -
    have "take (length s) s' ! a = s' ! a" using that by simp
    then show ?thesis using fr by simp
  qed
  have "in_store s' f \<and> contents s' f = contents s f" if "in_store s f" for f
  proof -
    have "buf f < length s" using that by (simp add: in_store_def)
    then have "s' ! buf f = s ! buf f" by (rule same)
    then show ?thesis using that fr by (simp add: in_store_def contents_def)
  qed
  then show ?thesis using b ab fr by blast
qed

theorem ParseAction_leaves_batch_unchanged_witness:
  "(case ParseAction (ex_env 0 0) ex_store_scattered of
      Inl e \<Rightarrow> False
    | Inr (d', s') \<Rightarrow>
        action_batch d' = Some ex_batch
        \<and> s' = ex_store_scattered @ [map IntCell [0, 0], map RawCell [10, 11, 30, 31]]
        \<and> take (length ex_store_scattered) s' = ex_store_scattered
        \<and> (\<forall>f\<in>set ex_batch. in_store s' f \<and> contents s' f = contents ex_store_scattered f))"
proof -
  have "map_sum id snd (ParseAction (ex_env 0 0) ex_store_scattered)
      = Inr (ex_store_scattered @ [map IntCell [0, 0], map RawCell [10, 11, 30, 31]])"
    by code_simp
  then obtain d' s' where p: "ParseAction (ex_env 0 0) ex_store_scattered = Inr (d', s')"
    and s': "s' = ex_store_scattered @ [map IntCell [0, 0], map RawCell [10, 11, 30, 31]]"
    by (cases "ParseAction (ex_env 0 0) ex_store_scattered") auto
  have a: "action_batch (ex_env 0 0) = Some ex_batch"
    by (simp add: ex_defs)
  have i: "\<forall>f\<in>set ex_batch. in_store ex_store_scattered f"
    by code_simp
  show ?thesis
    using ParseAction_leaves_batch_unchanged[OF p] p a i s' by auto
qed

subsection \<open>A round without players\<close>

lemma contiguity_Nil: "contiguity [] = (False, 0, 0)"
  by (simp add: contiguity_def)

lemma gather_entry_no_player:
  assumes "i < length (action_specs d)" and "shape (action_specs d ! i) \<noteq> []"
    and "\<not> list_ex (\<lambda>x. x < 0) (tl (shape (action_specs d ! i)))"
  shows "\<exists>d' s'. gather_entry batch [] i (d, s) = Inr (d', s')
           \<and> is_player_action d' = is_player_action d \<and> env_index d' = env_index d
           \<and> length (action_specs d') = length (action_specs d)
           \<and> (\<forall>k. k \<noteq> i \<longrightarrow> action_specs d' ! k = action_specs d ! k)"
proof -
  obtain x xs where sh: "shape (action_specs d ! i) = x # xs"
    using assms(2) by (cases "shape (action_specs d ! i)") auto
  have "\<not> list_ex (\<lambda>x. x < 0) xs" using assms(3) sh by simp
  then show ?thesis
    using assms(1) sh by (simp add: new_Array_def for_loop_stop Let_def)
qed

lemma empty_rows:
  assumes "dims a \<noteq> []" and "hd (dims a) = 0"
  shows "size_of a = 0 \<and> contents s a = []"
proof -
  obtain x xs where "dims a = x # xs" using assms(1) by (cases "dims a") auto
  then show ?thesis using assms(2) by (simp add: size_of_def contents_def)
qed

text \<open>
  C4. Let the driver be multi-player, let the scan of the attached batch find no row of
  this environment, and let the call be well-formed otherwise: the driver knows of every
  field whether it is per-player, every per-environment field has a row \<open>env_index_\<close>, and
  the driver's shape spec of every per-player field has a leading dimension and no negative
  dimension behind it. Then \<open>ParseAction\<close> returns without error, with one entry per
  field, and the entry of every per-player field has zero rows and no cells.
\<close>

theorem zero_player_round_is_valid:
  assumes "\<not> is_single_player d"
    and "action_batch d = Some batch"
    and "env_player_scan d s = Inr []"
    and "length batch \<le> length (is_player_action d)"
    and "\<forall>i<length batch.
           if is_player_action d ! i
           then i < length (action_specs d) \<and> shape (action_specs d ! i) \<noteq> []
                \<and> \<not> list_ex (\<lambda>x. x < 0) (tl (shape (action_specs d ! i)))
           else dims (batch ! i) \<noteq> [] \<and> env_index d < hd (dims (batch ! i))"
  shows "\<exists>d' s'. ParseAction d s = Inr (d', s')
           \<and> length (raw_action d') = length batch
           \<and> (\<forall>i<length batch. is_player_action d ! i \<longrightarrow>
                 dims (raw_action d' ! i) \<noteq> [] \<and> hd (dims (raw_action d' ! i)) = 0
                 \<and> size_of (raw_action d' ! i) = 0 \<and> contents s' (raw_action d' ! i) = [])"
proof -
  let ?d0 = "d\<lparr>raw_action := []\<rparr>"
  let ?n = "length batch"
  let ?body = "multi_body batch [] False 0 0"
  let ?P = "\<lambda>j. \<lambda>x::Env \<times> store. is_player_action (fst x) = is_player_action d
              \<and> env_index (fst x) = env_index d
              \<and> length (action_specs (fst x)) = length (action_specs d)
              \<and> (\<forall>k\<ge>j. action_specs (fst x) ! k = action_specs d ! k)"
  have pa: "ParseAction d s = for_loop ?body 0 ?n (?d0, s)"
    using assms(1,3) by (simp add: ParseAction_unfold[OF assms(2)] contiguity_Nil)
  have "\<exists>r. for_loop ?body 0 ?n (?d0, s) = Inr r \<and> ?P ?n r"
  proof (rule for_loop_total[where P = ?P])
    show "?P 0 (?d0, s)" by simp
    show "0 \<le> ?n" by simp
    fix j x assume j: "j < ?n" and p: "?P j x"
    obtain d1 s1 where x: "x = (d1, s1)" by (cases x)
    have p1: "is_player_action d1 = is_player_action d" "env_index d1 = env_index d"
      "length (action_specs d1) = length (action_specs d)"
      "action_specs d1 ! j = action_specs d ! j"
      and rest: "\<forall>k\<ge>Suc j. action_specs d1 ! k = action_specs d ! k"
      using p unfolding x fst_conv by simp_all
    have jl: "j < length (is_player_action d)" using j assms(4) by simp
    note w = assms(5)[rule_format, OF j]
    show "\<exists>a'. ?body j x = Inr a' \<and> ?P (Suc j) a'"
    proof (cases "is_player_action d ! j")
      case True
      then have "j < length (action_specs d1)" "shape (action_specs d1 ! j) \<noteq> []"
        "\<not> list_ex (\<lambda>x. x < 0) (tl (shape (action_specs d1 ! j)))"
        using w p1 by simp_all
      from gather_entry_no_player[OF this, of batch s1] obtain d2 s2 where
        g: "gather_entry batch [] j (d1, s1) = Inr (d2, s2)"
        and q: "is_player_action d2 = is_player_action d1" "env_index d2 = env_index d1"
        "length (action_specs d2) = length (action_specs d1)"
        "\<forall>k. k \<noteq> j \<longrightarrow> action_specs d2 ! k = action_specs d1 ! k"
        by blast
      have "?body j x = Inr (d2, s2)"
        unfolding x using True jl g p1 by simp
      moreover have "?P (Suc j) (d2, s2)"
        using q p1 rest by simp
      ultimately show ?thesis by blast
    next
      case False
      then have "dims (batch ! j) \<noteq> []" "env_index d < hd (dims (batch ! j))"
        using w by simp_all
      then show ?thesis
        unfolding x using False jl p1 rest by (simp add: Index_def)
    qed
  qed
  then obtain d' s' where lp: "for_loop ?body 0 ?n (?d0, s) = Inr (d', s')"
    by (metis surj_pair)
  have r0: "raw_action ?d0 = []" by simp
  have sel: "is_player_action ?d0 = is_player_action d" by simp
  note M = multi_loop_Inr[OF lp r0, unfolded sel]
  have "dims (raw_action d' ! i) \<noteq> [] \<and> hd (dims (raw_action d' ! i)) = 0
        \<and> size_of (raw_action d' ! i) = 0 \<and> contents s' (raw_action d' ! i) = []"
    if "i < ?n" "is_player_action d ! i" for i
  proof -
    have "dims (raw_action d' ! i) \<noteq> []" "hd (dims (raw_action d' ! i)) = 0"
      using M that by auto
    then show ?thesis using empty_rows by blast
  qed
  moreover have "length (raw_action d') = ?n" using M by blast
  ultimately show ?thesis using pa lp by auto
qed

theorem zero_player_round_is_valid_witness:
  "\<not> is_single_player (ex_env 7 0)
   \<and> action_batch (ex_env 7 0) = Some ex_batch
   \<and> env_player_scan (ex_env 7 0) ex_store_scattered = Inr []
   \<and> is_player_action (ex_env 7 0) = [False, True, True]
   \<and> (case ParseAction (ex_env 7 0) ex_store_scattered of
        Inl e \<Rightarrow> False
      | Inr (d', s') \<Rightarrow>
          raw_action d' = [\<lparr>buf = 0, offset = 0, dims = []\<rparr>, \<lparr>buf = 3, offset = 0, dims = [0]\<rparr>,
                           \<lparr>buf = 4, offset = 0, dims = [0, 2]\<rparr>]
          \<and> contents s' (raw_action d' ! 1) = [] \<and> contents s' (raw_action d' ! 2) = [])"
proof -
  have h: "\<not> is_single_player (ex_env 7 0)" "action_batch (ex_env 7 0) = Some ex_batch"
    "env_player_scan (ex_env 7 0) ex_store_scattered = Inr []"
    "length ex_batch \<le> length (is_player_action (ex_env 7 0))"
    "\<forall>i<length ex_batch.
           if is_player_action (ex_env 7 0) ! i
           then i < length (action_specs (ex_env 7 0)) \<and> shape (action_specs (ex_env 7 0) ! i) \<noteq> []
                \<and> \<not> list_ex (\<lambda>x. x < 0) (tl (shape (action_specs (ex_env 7 0) ! i)))
           else dims (ex_batch ! i) \<noteq> [] \<and> env_index (ex_env 7 0) < hd (dims (ex_batch ! i))"
    by code_simp+
  have ip: "is_player_action (ex_env 7 0) = [False, True, True]" by code_simp
  have l: "length ex_batch = 3" by (simp add: ex_batch_def)
  have "map_sum id (\<lambda>(d', s'). raw_action d') (ParseAction (ex_env 7 0) ex_store_scattered)
      = Inr [\<lparr>buf = 0, offset = 0, dims = []\<rparr>, \<lparr>buf = 3, offset = 0, dims = [0]\<rparr>,
                           \<lparr>buf = 4, offset = 0, dims = [0, 2]\<rparr>]"
    by code_simp
  then obtain d1 s1 where p: "ParseAction (ex_env 7 0) ex_store_scattered = Inr (d1, s1)"
    and r: "raw_action d1 = [\<lparr>buf = 0, offset = 0, dims = []\<rparr>, \<lparr>buf = 3, offset = 0, dims = [0]\<rparr>,
                           \<lparr>buf = 4, offset = 0, dims = [0, 2]\<rparr>]"
    by (cases "ParseAction (ex_env 7 0) ex_store_scattered") auto
  from zero_player_round_is_valid[OF h] p
  have z: "\<And>i. i < 3 \<Longrightarrow> is_player_action (ex_env 7 0) ! i \<Longrightarrow> contents s1 (raw_action d1 ! i) = []"
    using l by auto
  have "contents s1 (raw_action d1 ! 1) = []" "contents s1 (raw_action d1 ! 2) = []"
    using z[of 1] z[of 2] ip by simp_all
  then show ?thesis using h(1,2,3) ip p r by simp
qed

subsection \<open>What a call leaves of the driver\<close>

lemma ParseAction_driver_frame:
  assumes "ParseAction d s = Inr (d', s')"
  shows "d' = d\<lparr>action_specs := action_specs d', raw_action := raw_action d'\<rparr>"
proof -
  obtain batch where b: "action_batch d = Some batch"
    using ParseAction_attached[OF assms] by blast
  let ?d0 = "d\<lparr>raw_action := []\<rparr>"
  have "d' = ?d0\<lparr>action_specs := action_specs d', raw_action := raw_action d'\<rparr>"
  proof (cases "is_single_player d")
    case True
    then have "for_loop (single_body batch) 0 (length batch) (?d0, s) = Inr (d', s')"
      using assms by (simp add: ParseAction_unfold[OF b])
    from single_loop_Inr[OF this] have e: "d' = ?d0\<lparr>raw_action := raw_action d'\<rparr>"
      by simp
    have "action_specs d' = action_specs d" by (subst e) simp
    then have "?d0\<lparr>action_specs := action_specs d', raw_action := raw_action d'\<rparr>
        = ?d0\<lparr>raw_action := raw_action d'\<rparr>"
      by simp
    then show ?thesis using e by simp
  next
    case False
    then obtain idx where "for_loop (multi_body batch idx (fst (contiguity idx))
        (fst (snd (contiguity idx))) (snd (snd (contiguity idx)))) 0 (length batch) (?d0, s)
          = Inr (d', s')"
      using assms by (auto simp: ParseAction_unfold[OF b] split: sum.splits)
    from multi_loop_Inr[OF this] show ?thesis by simp
  qed
  then show ?thesis by simp
qed

lemma ParseAction_elapsed_step:
  "ParseAction d s = Inr (d', s') \<Longrightarrow> elapsed_step d' = elapsed_step d"
  by (drule ParseAction_driver_frame, erule ssubst) simp

lemma PostProcess_elapsed_step: "elapsed_step (drv (PostProcess w)) = elapsed_step (drv w)"
  by (simp add: PostProcess_def split: done_write.splits)

lemma Allocate_frame:
  assumes "Allocate is_done n w = Inr (state, w')"
  shows "drv w' = (drv w)\<lparr>sbq := sbq (drv w'), slice := slice (drv w')\<rparr>
       \<and> ext w' = ext w \<and> log w' = log w"
  using assms
  by (auto simp: Allocate_def Let_def split: option.splits sum.splits prod.splits)

subsection \<open>The step counter\<close>

lemma counter_after_steps:
  "elapsed_step (foldl (\<lambda>d r. PreProcess d q ord r) d (replicate n False))
     = elapsed_step d + of_nat n"
proof (induction n arbitrary: d)
  case 0
  then show ?case by simp
next
  case (Suc n)
  have "elapsed_step (PreProcess d q ord False) = elapsed_step d + 1"
    by (simp add: PreProcess_def)
  then show ?case using Suc[of "PreProcess d q ord False"] by simp
qed

lemma sint_succ:
  fixes x :: cint
  assumes "sint x < 2 ^ 31 - 1"
  shows "sint (x + 1) = sint x + 1"
proof -
  have lo: "- (2 ^ 31) \<le> sint x" using sint_ge[of x] by simp
  have "sint (x + 1) = signed_take_bit 31 (sint x + 1)"
    by (simp add: sint_word_ariths)
  also have "\<dots> = sint x + 1"
    by (rule signed_take_bit_int_eq_self) (use lo assms in simp_all)
  finally show ?thesis .
qed

lemma EnvStep_counter:
  assumes r: "\<And>w w'. Reset ops w = Inr w' \<Longrightarrow> elapsed_step (drv w') = elapsed_step (drv w)"
    and st: "\<And>a w w'. Step ops a w = Inr w' \<Longrightarrow> elapsed_step (drv w') = elapsed_step (drv w)"
    and e: "EnvStep ops q ord reset w = Inr w'"
  shows "elapsed_step (drv w') = (if reset then 0 else elapsed_step (drv w) + 1)"
proof (cases reset)
  case True
  then obtain w2 where "Reset ops (w\<lparr>drv := PreProcess (drv w) q ord True\<rparr>) = Inr w2"
    and "w' = PostProcess w2"
    using e by (auto simp: EnvStep_def Let_def split: sum.splits)
  then show ?thesis
    using r[of "w\<lparr>drv := PreProcess (drv w) q ord True\<rparr>" w2] True
    by (simp add: PostProcess_elapsed_step PreProcess_def)
next
  case False
  then obtain d2 s2 w3 where
    p: "ParseAction (PreProcess (drv w) q ord False) (heap w) = Inr (d2, s2)"
    and s: "Step ops (raw_action d2) (w\<lparr>drv := d2, heap := s2\<rparr>) = Inr w3"
    and w': "w' = PostProcess w3"
    using e by (auto simp: EnvStep_def Let_def split: sum.splits)
  have "elapsed_step d2 = elapsed_step (drv w) + 1"
    using ParseAction_elapsed_step[OF p] by (simp add: PreProcess_def)
  then show ?thesis
    using st[OF s] False w' by (simp add: PostProcess_elapsed_step)
qed

text \<open>
  C6. A freshly constructed driver has the step counter \<open>-1\<close>. \<open>PreProcess\<close>, and so every
  \<open>EnvStep\<close>, sets the counter to \<open>0\<close> when \<open>reset\<close> is true, whatever it was before, and
  adds exactly \<open>1\<close> to it when \<open>reset\<close> is false; as a signed number it grows by one as long
  as it is below the largest \<open>int\<close>. After a reset and \<open>n\<close> steps the counter is \<open>n\<close>, and
  a later reset sets it to \<open>0\<close> again. The counter is a private member: for an environment
  type whose \<open>Reset\<close> and \<open>Step\<close> leave it alone, as every derived class must, the counter
  after a whole \<open>EnvStep\<close> is the one \<open>PreProcess\<close> has set.
\<close>

theorem step_counter_law:
  "elapsed_step (Env_new sp eid) = - 1
   \<and> sint (elapsed_step (Env_new sp eid)) = - 1
   \<and> elapsed_step (PreProcess d q ord True) = 0
   \<and> elapsed_step (PreProcess d q ord False) = elapsed_step d + 1
   \<and> (sint (elapsed_step d) < 2 ^ 31 - 1 \<longrightarrow>
         sint (elapsed_step (PreProcess d q ord False)) = sint (elapsed_step d) + 1)
   \<and> elapsed_step (foldl (\<lambda>d r. PreProcess d q ord r) d (True # replicate n False)) = of_nat n
   \<and> elapsed_step (PreProcess
         (foldl (\<lambda>d r. PreProcess d q ord r) d (True # replicate n False)) q ord True) = 0
   \<and> ((\<forall>w w'. Reset ops w = Inr w' \<longrightarrow> elapsed_step (drv w') = elapsed_step (drv w))
        \<and> (\<forall>a w w'. Step ops a w = Inr w' \<longrightarrow> elapsed_step (drv w') = elapsed_step (drv w))
       \<longrightarrow> (\<forall>reset w w'. EnvStep ops q ord reset w = Inr w' \<longrightarrow>
               elapsed_step (drv w') = (if reset then 0 else elapsed_step (drv w) + 1)))"
proof -
  have a: "elapsed_step (Env_new sp eid) = - 1"
    by (simp add: Env_new_def)
  have b: "elapsed_step (PreProcess d q ord True) = 0"
    "elapsed_step (PreProcess d q ord False) = elapsed_step d + 1" for d
    by (simp_all add: PreProcess_def)
  have c: "sint (elapsed_step d) < 2 ^ 31 - 1 \<longrightarrow>
         sint (elapsed_step (PreProcess d q ord False)) = sint (elapsed_step d) + 1"
    using sint_succ[of "elapsed_step d"] by (simp add: b)
  have f: "elapsed_step (foldl (\<lambda>d r. PreProcess d q ord r) d (True # replicate n False)) = of_nat n"
    using counter_after_steps[of q ord "PreProcess d q ord True" n] by (simp add: b)
  have g: "(\<forall>w w'. Reset ops w = Inr w' \<longrightarrow> elapsed_step (drv w') = elapsed_step (drv w))
        \<and> (\<forall>a w w'. Step ops a w = Inr w' \<longrightarrow> elapsed_step (drv w') = elapsed_step (drv w))
       \<longrightarrow> (\<forall>reset w w'. EnvStep ops q ord reset w = Inr w' \<longrightarrow>
               elapsed_step (drv w') = (if reset then 0 else elapsed_step (drv w) + 1))"
    using EnvStep_counter[of ops q ord] by blast
  have a2: "sint (elapsed_step (Env_new sp eid)) = - 1"
    by (simp add: a)
  have f2: "elapsed_step (PreProcess
         (foldl (\<lambda>d r. PreProcess d q ord r) d (True # replicate n False)) q ord True) = 0"
    by (rule b)
  show ?thesis
    by (intro conjI) (rule a a2 b c f f2 g)+
qed

lemma Allocate_elapsed_step:
  assumes "Allocate is_done n w = Inr (state, w')"
  shows "elapsed_step (drv w') = elapsed_step (drv w)"
  using assms
  by (auto simp: Allocate_def Let_def split: option.splits sum.splits prod.splits)

lemma ex_ops_keep_counter:
  "Reset ex_ops w = Inr w' \<Longrightarrow> elapsed_step (drv w') = elapsed_step (drv w)"
  "Step ex_ops a w = Inr w' \<Longrightarrow> elapsed_step (drv w') = elapsed_step (drv w)"
proof -
  have k: "elapsed_step (drv v') = elapsed_step (drv v)"
    if "Allocate ex_IsDone 2 v = Inr (st, v')" for v v' :: "nat world" and st
    using that by (rule Allocate_elapsed_step)
  show "Reset ex_ops w = Inr w' \<Longrightarrow> elapsed_step (drv w') = elapsed_step (drv w)"
    using k[of "w\<lparr>ext := 0\<rparr>"]
    by (auto simp: ex_ops_def ex_Reset_def split: sum.splits)
  show "Step ex_ops a w = Inr w' \<Longrightarrow> elapsed_step (drv w') = elapsed_step (drv w)"
    using k[of "w\<lparr>ext := ext w + 1\<rparr>"]
    by (auto simp: ex_ops_def ex_Step_def split: sum.splits)
qed

theorem step_counter_law_witness:
  "sint (elapsed_step (Env_new ex_spec 0)) = - 1
   \<and> sint (elapsed_step (Env_new ex_spec 0)) < 2 ^ 31 - 1
   \<and> sint (elapsed_step (PreProcess (Env_new ex_spec 0) ex_queue 0 False)) = 0
   \<and> (case EnvStep ex_ops ex_queue 0 True (ex_world (ex_env 0 0) ex_store_grouped) of
        Inl e \<Rightarrow> False
      | Inr w1 \<Rightarrow>
          elapsed_step (drv w1) = 0
          \<and> (case EnvStep ex_ops ex_queue 1 False w1 of
                Inl e \<Rightarrow> False
              | Inr w2 \<Rightarrow>
                  elapsed_step (drv w2) = 1
                  \<and> (case EnvStep ex_ops ex_queue 2 True w2 of
                        Inl e \<Rightarrow> False
                      | Inr w3 \<Rightarrow> elapsed_step (drv w3) = 0)))"
proof -
  note L = step_counter_law[of ex_spec 0 "Env_new ex_spec 0" ex_queue 0 0 ex_ops]
  have s: "sint (elapsed_step (Env_new ex_spec 0)) = - 1" using L by blast
  then have lt: "sint (elapsed_step (Env_new ex_spec 0)) < 2 ^ 31 - 1" by simp
  have p: "sint (elapsed_step (PreProcess (Env_new ex_spec 0) ex_queue 0 False)) = 0"
    using L lt s by simp
  have E: "elapsed_step (drv w') = (if reset then 0 else elapsed_step (drv w) + 1)"
    if "EnvStep ex_ops ex_queue k reset w = Inr w'" for k reset w w'
    using step_counter_law[of ex_spec 0 "Env_new ex_spec 0" ex_queue k 0 ex_ops]
      ex_ops_keep_counter that by blast
  have "map_sum id (\<lambda>w. ()) (EnvStep ex_ops ex_queue 0 True (ex_world (ex_env 0 0) ex_store_grouped))
      = Inr ()"
    by code_simp
  then obtain w1 where e1: "EnvStep ex_ops ex_queue 0 True (ex_world (ex_env 0 0) ex_store_grouped) = Inr w1"
    by (cases "EnvStep ex_ops ex_queue 0 True (ex_world (ex_env 0 0) ex_store_grouped)") auto
  have "map_sum id (\<lambda>w. ())
          (case EnvStep ex_ops ex_queue 0 True (ex_world (ex_env 0 0) ex_store_grouped) of
             Inl e \<Rightarrow> Inl e | Inr w1 \<Rightarrow> EnvStep ex_ops ex_queue 1 False w1) = Inr ()"
    by code_simp
  then obtain w2 where e2: "EnvStep ex_ops ex_queue 1 False w1 = Inr w2"
    using e1 by (cases "EnvStep ex_ops ex_queue 1 False w1") auto
  have "map_sum id (\<lambda>w. ())
          (case EnvStep ex_ops ex_queue 0 True (ex_world (ex_env 0 0) ex_store_grouped) of
             Inl e \<Rightarrow> Inl e
           | Inr w1 \<Rightarrow> (case EnvStep ex_ops ex_queue 1 False w1 of
                Inl e \<Rightarrow> Inl e | Inr w2 \<Rightarrow> EnvStep ex_ops ex_queue 2 True w2)) = Inr ()"
    by code_simp
  then obtain w3 where e3: "EnvStep ex_ops ex_queue 2 True w2 = Inr w3"
    using e1 e2 by (cases "EnvStep ex_ops ex_queue 2 True w2") auto
  show ?thesis
    using s lt p e1 e2 e3 E[OF e1] E[OF e2] E[OF e3] by simp
qed

subsection \<open>A driver without overrides\<close>

text \<open>
  C9. For a driver whose environment type overrides none of \<open>Reset\<close>, \<open>Step\<close> and
  \<open>IsDone\<close>, each of the three raises its runtime error "not implemented" when it is
  invoked, and only then: \<open>EnvStep\<close> with \<open>reset\<close> fails with the error of \<open>Reset\<close>;
  \<open>EnvStep\<close> without \<open>reset\<close> fails with the error of \<open>Step\<close> once \<open>ParseAction\<close> has
  returned; \<open>Allocate\<close> fails with the error of \<open>IsDone\<close> once the slot is reserved. The constructor \<open>Env_new\<close> and \<open>SetAction\<close> take no
  environment operations and return a driver, not an error.
\<close>

theorem base_operations_not_implemented:
  "Reset base_ops w = Inl (RuntimeError ''reset not implemented'')
   \<and> Step base_ops action w = Inl (RuntimeError ''step not implemented'')
   \<and> IsDone base_ops w = Inl (RuntimeError ''is_done not implemented'')
   \<and> EnvStep base_ops q ord True w = Inl (RuntimeError ''reset not implemented'')
   \<and> (\<forall>r. ParseAction (PreProcess (drv w) q ord False) (heap w) = Inr r \<longrightarrow>
         EnvStep base_ops q ord False w = Inl (RuntimeError ''step not implemented''))
   \<and> (\<forall>q0 r.
         sbq (drv w) = Some q0
         \<and> sbq_Allocate q0 player_num (order (drv w)) (heap w) = Inr r \<longrightarrow>
         Allocate (IsDone base_ops) player_num w = Inl (RuntimeError ''is_done not implemented''))
   \<and> elapsed_step (SetAction (Env_new sp eid) batch k) = - 1"
proof -
  have a: "Reset base_ops w = Inl (RuntimeError ''reset not implemented'')"
    "Step base_ops action w = Inl (RuntimeError ''step not implemented'')"
    "IsDone base_ops w = Inl (RuntimeError ''is_done not implemented'')" for w :: "'a world" and action
    by (simp_all add: base_ops_def Reset_base_def Step_base_def IsDone_base_def)
  have b: "EnvStep base_ops q ord True w = Inl (RuntimeError ''reset not implemented'')"
    by (simp add: EnvStep_def a)
  have c: "\<forall>r. ParseAction (PreProcess (drv w) q ord False) (heap w) = Inr r \<longrightarrow>
         EnvStep base_ops q ord False w = Inl (RuntimeError ''step not implemented'')"
    by (auto simp: EnvStep_def a)
  have d: "\<forall>q0 r.
         sbq (drv w) = Some q0
         \<and> sbq_Allocate q0 player_num (order (drv w)) (heap w) = Inr r \<longrightarrow>
         Allocate (IsDone base_ops) player_num w = Inl (RuntimeError ''is_done not implemented'')"
    by (auto simp: Allocate_def Let_def a)
  have e: "elapsed_step (SetAction (Env_new sp eid) batch k) = - 1"
    by (simp add: SetAction_def Env_new_def)
  show ?thesis
    by (intro conjI) (rule a b c d e)+
qed

theorem base_operations_not_implemented_witness:
  "(\<exists>r. ParseAction (PreProcess (ex_env 0 0) ex_queue 0 False) ex_store_grouped = Inr r)
   \<and> EnvStep base_ops ex_queue 0 False (ex_world (ex_env 0 0) ex_store_grouped)
        = Inl (RuntimeError ''step not implemented'')
   \<and> EnvStep base_ops ex_queue 0 True (ex_world (ex_env 0 0) ex_store_grouped)
        = Inl (RuntimeError ''reset not implemented'')
   \<and> Allocate (IsDone base_ops) 2
        (ex_world (PreProcess (ex_env 0 0) ex_queue 0 True) ex_store_grouped)
        = Inl (RuntimeError ''is_done not implemented'')"
proof -
  let ?w = "ex_world (ex_env 0 0) ex_store_grouped"
  let ?v = "ex_world (PreProcess (ex_env 0 0) ex_queue 0 True) ex_store_grouped"
  note T = base_operations_not_implemented[of ?w "[]" ex_queue 0 2 ex_spec 0 None 0]
  note U = base_operations_not_implemented[of ?v "[]" ex_queue 0 2 ex_spec 0 None 0]
  have "map_sum id (\<lambda>r. ()) (ParseAction (PreProcess (ex_env 0 0) ex_queue 0 False) ex_store_grouped)
      = Inr ()"
    by code_simp
  then obtain r where p: "ParseAction (PreProcess (ex_env 0 0) ex_queue 0 False) ex_store_grouped = Inr r"
    by (cases "ParseAction (PreProcess (ex_env 0 0) ex_queue 0 False) ex_store_grouped") auto
  have w: "drv ?w = ex_env 0 0" "heap ?w = ex_store_grouped"
    by (simp_all add: ex_world_def)
  have s: "EnvStep base_ops ex_queue 0 False ?w = Inl (RuntimeError ''step not implemented'')"
    using T p unfolding w by blast
  have r: "EnvStep base_ops ex_queue 0 True ?w = Inl (RuntimeError ''reset not implemented'')"
    using T by blast
  have "map_sum id (\<lambda>(sl, q1, s1). ())
          (sbq_Allocate ex_queue 2 (order (drv ?v)) (heap ?v)) = Inr ()"
    by code_simp
  then obtain x where al: "sbq_Allocate ex_queue 2 (order (drv ?v)) (heap ?v) = Inr x"
    by (cases "sbq_Allocate ex_queue 2 (order (drv ?v)) (heap ?v)") auto
  have q: "sbq (drv ?v) = Some ex_queue"
    by (simp add: ex_world_def PreProcess_def)
  have "Allocate (IsDone base_ops) 2 ?v = Inl (RuntimeError ''is_done not implemented'')"
    using U q al by blast
  then show ?thesis using p s r by blast
qed

subsection \<open>Reset without an action\<close>

lemma Allocate_with_action:
  assumes "\<And>v. is_done (with_action b k r v) = is_done v"
  shows "Allocate is_done n (with_action b k r w)
       = map_sum id (\<lambda>(st, w'). (st, with_action b k r w')) (Allocate is_done n w)"
proof (cases "sbq (drv w)")
  case None
  then show ?thesis by (simp add: Allocate_def with_action_def)
next
  case (Some q)
  show ?thesis
  proof (cases "sbq_Allocate q n (order (drv w)) (heap w)")
    case (Inl e)
    then show ?thesis using Some by (simp add: Allocate_def with_action_def)
  next
    case (Inr x)
    obtain sl q1 s1 where x: "x = (sl, q1, s1)" by (cases x)
    let ?w1 = "w\<lparr>drv := (drv w)\<lparr>sbq := Some q1, slice := sl\<rparr>, heap := s1\<rparr>"
    let ?K = "map fst (state_spec (spec (drv w)))"
    have i: "is_done (with_action b k r ?w1) = is_done ?w1" by (rule assms)
    have U1: "Allocate is_done n w =
        (case is_done ?w1 of
           Inl e \<Rightarrow> Inl e
         | Inr bb \<Rightarrow>
             (case stamp_mandatory ?K (arr sl) bb (env_id (drv w)) (elapsed_step (drv w)) n s1 of
                Inl e \<Rightarrow> Inl e
              | Inr s5 \<Rightarrow> Inr (arr sl, ?w1\<lparr>heap := s5\<rparr>)))"
      using Some Inr x by (simp add: Allocate_def Let_def cong: sum.case_cong)
    let ?W = "with_action b k r w"
    have sel: "sbq (drv ?W) = Some q" "order (drv ?W) = order (drv w)" "heap ?W = heap w"
      "spec ((drv ?W)\<lparr>sbq := Some q1, slice := sl\<rparr>) = spec (drv w)"
      "env_id ((drv ?W)\<lparr>sbq := Some q1, slice := sl\<rparr>) = env_id (drv w)"
      "elapsed_step ((drv ?W)\<lparr>sbq := Some q1, slice := sl\<rparr>) = elapsed_step (drv w)"
      using Some by (simp_all add: with_action_def)
    have c: "?W\<lparr>drv := (drv ?W)\<lparr>sbq := Some q1, slice := sl\<rparr>, heap := s1\<rparr>
               = with_action b k r ?w1"
      by (simp add: with_action_def)
    have h: "(with_action b k r ?w1)\<lparr>heap := s5\<rparr> = with_action b k r (?w1\<lparr>heap := s5\<rparr>)" for s5
      by (simp add: with_action_def)
    have U2: "Allocate is_done n (with_action b k r w) =
        (case is_done (with_action b k r ?w1) of
           Inl e \<Rightarrow> Inl e
         | Inr bb \<Rightarrow>
             (case stamp_mandatory ?K (arr sl) bb (env_id (drv w)) (elapsed_step (drv w)) n s1 of
                Inl e \<Rightarrow> Inl e
              | Inr s5 \<Rightarrow> Inr (arr sl, with_action b k r (?w1\<lparr>heap := s5\<rparr>))))"
      unfolding Allocate_def
      by (simp only: sel Inr x option.case sum.case prod.case Let_def c h cong: sum.case_cong)
    show ?thesis
      unfolding U1 U2 i by (simp split: sum.splits)
  qed
qed

lemma PostProcess_with_action:
  "PostProcess (with_action b k r w) = with_action b k r (PostProcess w)"
  by (simp add: PostProcess_def with_action_def split: done_write.splits)

lemma PreProcess_with_action:
  "(with_action b k r w)\<lparr>drv := PreProcess (drv (with_action b k r w)) q ord reset\<rparr>
     = with_action b k r (w\<lparr>drv := PreProcess (drv w) q ord reset\<rparr>)"
  by (simp add: PreProcess_def with_action_def)

lemma EnvStep_reset_unfold:
  "EnvStep ops q ord True w =
     (case Reset ops (w\<lparr>drv := PreProcess (drv w) q ord True\<rparr>) of
        Inl e \<Rightarrow> Inl e
      | Inr w2 \<Rightarrow> Inr (PostProcess w2))"
  by (simp add: EnvStep_def)

text \<open>
  C10. \<open>EnvStep\<close> with \<open>reset\<close> set runs \<open>PreProcess\<close>, the environment's \<open>Reset\<close> and
  \<open>PostProcess\<close> and nothing else. Its result does not depend on the environment's \<open>Step\<close>.
  On a driver on which \<open>SetAction\<close> was never called, so that the batch pointer is null,
  \<open>ParseAction\<close> and with it every \<open>EnvStep\<close> without \<open>reset\<close> fails on the null
  pointer, while \<open>EnvStep\<close> with \<open>reset\<close> returns whenever \<open>Reset\<close> does. And the
  members \<open>action_batch_\<close>, \<open>env_index_\<close> and \<open>raw_action_\<close> are neither read nor written:
  they are private, so \<open>Reset\<close> cannot depend on them, and then replacing them before the
  call is the same as replacing them after it.
\<close>

theorem EnvStep_reset_skips_action:
  "EnvStep (ops\<lparr>Step := f\<rparr>) q ord True w = EnvStep ops q ord True w
   \<and> (action_batch (drv w) = None \<longrightarrow>
         ParseAction (PreProcess (drv w) q ord False) (heap w) = Inl NullPointer
         \<and> EnvStep ops q ord False w = Inl NullPointer
         \<and> (\<forall>w2. Reset ops (w\<lparr>drv := PreProcess (drv w) q ord True\<rparr>) = Inr w2 \<longrightarrow>
                EnvStep ops q ord True w = Inr (PostProcess w2)))
   \<and> ((\<forall>b k r v. Reset ops (with_action b k r v) = map_sum id (with_action b k r) (Reset ops v))
        \<longrightarrow> (\<forall>b k r. EnvStep ops q ord True (with_action b k r w)
                        = map_sum id (with_action b k r) (EnvStep ops q ord True w)))"
proof (intro conjI impI allI)
  show "EnvStep (ops\<lparr>Step := f\<rparr>) q ord True w = EnvStep ops q ord True w"
    by (simp add: EnvStep_reset_unfold)
next
  assume n: "action_batch (drv w) = None"
  then show p: "ParseAction (PreProcess (drv w) q ord False) (heap w) = Inl NullPointer"
    by (simp add: ParseAction_def PreProcess_def)
  then show "EnvStep ops q ord False w = Inl NullPointer"
    by (simp add: EnvStep_def)
next
  fix w2 assume "Reset ops (w\<lparr>drv := PreProcess (drv w) q ord True\<rparr>) = Inr w2"
  then show "EnvStep ops q ord True w = Inr (PostProcess w2)"
    by (simp add: EnvStep_reset_unfold)
next
  fix b k r
  assume bl: "\<forall>b k r v. Reset ops (with_action b k r v) = map_sum id (with_action b k r) (Reset ops v)"
  show "EnvStep ops q ord True (with_action b k r w)
          = map_sum id (with_action b k r) (EnvStep ops q ord True w)"
    unfolding EnvStep_reset_unfold PreProcess_with_action bl[rule_format]
    by (cases "Reset ops (w\<lparr>drv := PreProcess (drv w) q ord True\<rparr>)")
       (simp_all add: PostProcess_with_action)
qed

lemma ex_Reset_blind:
  "Reset ex_ops (with_action b k r v) = map_sum id (with_action b k r) (Reset ex_ops v)"
proof -
  have e: "(with_action b k r v)\<lparr>ext := 0\<rparr> = with_action b k r (v\<lparr>ext := 0\<rparr>)"
    by (simp add: with_action_def)
  have i: "ex_IsDone (with_action b k r u) = ex_IsDone u" for u
    by (simp add: ex_IsDone_def with_action_def)
  show ?thesis
    unfolding ex_ops_def EnvOps.simps ex_Reset_def e Allocate_with_action[of ex_IsDone, OF i]
    by (cases "Allocate ex_IsDone 2 (v\<lparr>ext := 0\<rparr>)") auto
qed

theorem EnvStep_reset_skips_action_witness:
  "action_batch (drv (ex_world (Env_new ex_spec 0) ex_store_grouped)) = None
   \<and> (\<exists>w'. EnvStep ex_ops ex_queue 0 True (ex_world (Env_new ex_spec 0) ex_store_grouped) = Inr w'
          \<and> EnvStep ex_ops ex_queue 0 True
               (with_action (Some ex_batch) 0 [] (ex_world (Env_new ex_spec 0) ex_store_grouped))
             = Inr (with_action (Some ex_batch) 0 [] w')
          \<and> elapsed_step (drv w') = 0)
   \<and> EnvStep ex_ops ex_queue 0 False (ex_world (Env_new ex_spec 0) ex_store_grouped)
        = Inl NullPointer"
proof -
  let ?w = "ex_world (Env_new ex_spec 0) ex_store_grouped"
  note T = EnvStep_reset_skips_action[where ops = ex_ops and f = "Step_base" and q = ex_queue
      and ord = 0 and w = ?w]
  have n: "action_batch (drv ?w) = None"
    by (simp add: ex_world_def Env_new_def)
  have "map_sum id (\<lambda>w. elapsed_step (drv w)) (EnvStep ex_ops ex_queue 0 True ?w) = Inr 0"
    by code_simp
  then obtain w' where e: "EnvStep ex_ops ex_queue 0 True ?w = Inr w'"
    and c: "elapsed_step (drv w') = 0"
    by (cases "EnvStep ex_ops ex_queue 0 True ?w") auto
  have "EnvStep ex_ops ex_queue 0 True (with_action (Some ex_batch) 0 [] ?w)
      = map_sum id (with_action (Some ex_batch) 0 []) (EnvStep ex_ops ex_queue 0 True ?w)"
    using T ex_Reset_blind by blast
  then have "EnvStep ex_ops ex_queue 0 True (with_action (Some ex_batch) 0 [] ?w)
      = Inr (with_action (Some ex_batch) 0 [] w')"
    using e by simp
  moreover have "EnvStep ex_ops ex_queue 0 False ?w = Inl NullPointer"
    using T n by blast
  ultimately show ?thesis using n e c by blast
qed

subsection \<open>Publishing a state\<close>

lemma key_index_Some:
  "key_index keys k = Some i \<Longrightarrow> i < length keys \<and> keys ! i = k"
proof (induction keys arbitrary: i)
  case Nil
  then show ?case by simp
next
  case (Cons x xs)
  then show ?case by (auto split: if_splits)
qed

lemma key_index_map_of:
  "map_of kvs k = Some v \<Longrightarrow>
     \<exists>i. key_index (map fst kvs) k = Some i \<and> i < length kvs \<and> snd (kvs ! i) = v"
proof (induction kvs)
  case Nil
  then show ?case by simp
next
  case (Cons p kvs)
  then show ?case by (cases p) (auto split: if_splits)
qed

lemma alloc_fields_keeps:
  "alloc_fields sps n s = Inr (as, s1) \<Longrightarrow> k < length s \<Longrightarrow> s1 ! k = s ! k"
proof (induction sps arbitrary: s as)
  case Nil
  then show ?case by simp
next
  case (Cons sp sps)
  obtain a s0 where na: "new_Array (slot_shape sp n) s = Inr (a, s0)"
    using Cons.prems by (auto split: sum.splits)
  obtain as' where rest: "alloc_fields sps n s0 = Inr (as', s1)"
    using Cons.prems na by (auto split: sum.splits)
  have s0: "s0 = s @ [replicate (prod_list (map nat (shape (slot_shape sp n)))) (RawCell 0)]"
    using na by (auto simp: new_Array_def split: if_splits)
  have "s1 ! k = s0 ! k"
    using Cons.IH[OF rest] Cons.prems(2) s0 by simp
  then show ?case using Cons.prems(2) s0 by (simp add: nth_append)
qed

lemma alloc_fields_Inr:
  "alloc_fields sps n s = Inr (as, s1) \<Longrightarrow>
     length as = length sps \<and> length s1 = length s + length sps
     \<and> (\<forall>i<length sps.
           as ! i = \<lparr>buf = length s + i, offset = 0,
                      dims = map nat (shape (slot_shape (sps ! i) n))\<rparr>
           \<and> s1 ! (length s + i)
               = replicate (prod_list (map nat (shape (slot_shape (sps ! i) n)))) (RawCell 0))"
proof (induction sps arbitrary: s as s1)
  case Nil
  then show ?case by simp
next
  case (Cons sp sps)
  obtain a s0 where na: "new_Array (slot_shape sp n) s = Inr (a, s0)"
    using Cons.prems by (auto split: sum.splits)
  obtain as' where rest: "alloc_fields sps n s0 = Inr (as', s1)" and as: "as = a # as'"
    using Cons.prems na by (auto split: sum.splits)
  have a: "a = \<lparr>buf = length s, offset = 0, dims = map nat (shape (slot_shape sp n))\<rparr>"
    and s0: "s0 = s @ [replicate (prod_list (map nat (shape (slot_shape sp n)))) (RawCell 0)]"
    using na by (auto simp: new_Array_def split: if_splits)
  note IH = Cons.IH[OF rest]
  have l0: "length s0 = Suc (length s)" using s0 by simp
  have keep: "s1 ! length s = s0 ! length s"
    using alloc_fields_keeps[OF rest, of "length s"] l0 by simp
  show ?case
  proof (intro conjI allI impI)
    show "length as = length (sp # sps)" using IH as by simp
    show "length s1 = length s + length (sp # sps)" using IH l0 by simp
    fix i assume i: "i < length (sp # sps)"
    show "as ! i = \<lparr>buf = length s + i, offset = 0,
                      dims = map nat (shape (slot_shape ((sp # sps) ! i) n))\<rparr>"
      using IH i as a l0 by (cases i) auto
    show "s1 ! (length s + i)
               = replicate (prod_list (map nat (shape (slot_shape ((sp # sps) ! i) n)))) (RawCell 0)"
      using IH i l0 keep s0 by (cases i) auto
  qed
qed

lemma stamp_loop:
  assumes b: "buf a < length s" and o: "offset a = 0" and n: "n \<le> length (s ! buf a)"
  shows "for_loop (stamp_body a eid) 0 n s
       = Inr (s[buf a := replicate n (IntCell eid) @ drop n (s ! buf a)])"
proof -
  let ?B = "s ! buf a"
  let ?P = "\<lambda>j st. st = s[buf a := replicate j (IntCell eid) @ drop j ?B]"
  have "\<exists>r. for_loop (stamp_body a eid) 0 n s = Inr r \<and> ?P n r"
  proof (rule for_loop_total[where P = ?P])
    show "?P 0 s" by simp
    show "0 \<le> n" by simp
    fix j st assume j: "j < n" and p: "?P j st"
    have jl: "j < length ?B" using j n by simp
    have top: "st ! buf a = replicate j (IntCell eid) @ drop j ?B"
      using p b by simp
    have "(replicate j (IntCell eid) @ drop j ?B)[j := IntCell eid]
        = replicate j (IntCell eid) @ (drop j ?B)[0 := IntCell eid]"
      by (simp add: list_update_append)
    also have "\<dots> = replicate j (IntCell eid) @ IntCell eid # drop (Suc j) ?B"
      using jl by (simp add: Cons_nth_drop_Suc[symmetric])
    also have "\<dots> = replicate (Suc j) (IntCell eid) @ drop (Suc j) ?B"
      by (simp add: replicate_append_same)
    finally have upd: "(st ! buf a)[j := IntCell eid]
        = replicate (Suc j) (IntCell eid) @ drop (Suc j) ?B"
      using top by simp
    have "stamp_body a eid j st = Inr (st[buf a := (st ! buf a)[j := IntCell eid]])"
      using p b o jl top by (simp add: stamp_body_def write_cell_def)
    moreover have "st[buf a := (st ! buf a)[j := IntCell eid]]
        = s[buf a := replicate (Suc j) (IntCell eid) @ drop (Suc j) ?B]"
      unfolding upd using p by simp
    ultimately show "\<exists>a'. stamp_body a eid j st = Inr a' \<and> ?P (Suc j) a'"
      by simp
  qed
  then show ?thesis by auto
qed

lemma write_scalar:
  assumes "buf a < length s" and "offset a = 0" and "s ! buf a = [c0]"
  shows "write_cell s a 0 c = Inr (s[buf a := [c]])"
  using assms by (simp add: write_cell_def)

lemma stamp_mandatory_Inr:
  assumes nm: "named keys state ''done'' = Inr a1" "named keys state ''info:env_id'' = Inr a2"
      "named keys state ''elapsed_step'' = Inr a3"
      "named keys state ''info:players.env_id'' = Inr a4"
    and ds: "buf a1 \<noteq> buf a2" "buf a1 \<noteq> buf a3" "buf a1 \<noteq> buf a4" "buf a2 \<noteq> buf a3"
      "buf a2 \<noteq> buf a4" "buf a3 \<noteq> buf a4"
    and bs: "buf a1 < length s1" "buf a2 < length s1" "buf a3 < length s1" "buf a4 < length s1"
    and os: "offset a1 = 0" "offset a2 = 0" "offset a3 = 0" "offset a4 = 0"
    and dm: "dims a1 = []" "dims a2 = []" "dims a3 = []" "dims a4 = [n]"
    and cs: "s1 ! buf a1 = [RawCell 0]" "s1 ! buf a2 = [RawCell 0]" "s1 ! buf a3 = [RawCell 0]"
      "s1 ! buf a4 = replicate n (RawCell 0)"
  shows "\<exists>s5. stamp_mandatory keys state b eid step n s1 = Inr s5
           \<and> contents s5 a1 = [BoolCell b] \<and> contents s5 a2 = [IntCell eid]
           \<and> contents s5 a3 = [IntCell step] \<and> contents s5 a4 = replicate n (IntCell eid)"
proof -
  let ?s2 = "s1[buf a1 := [BoolCell b]]"
  let ?s3 = "?s2[buf a2 := [IntCell eid]]"
  let ?s4 = "?s3[buf a3 := [IntCell step]]"
  let ?s5 = "?s4[buf a4 := replicate n (IntCell eid)]"
  have w1: "write_cell s1 a1 0 (BoolCell b) = Inr ?s2"
    by (rule write_scalar) (use bs os cs in simp_all)
  have w2: "write_cell ?s2 a2 0 (IntCell eid) = Inr ?s3"
    by (rule write_scalar[where ?c0.0 = "RawCell 0"]) (use bs os cs ds in simp_all)
  have w3: "write_cell ?s3 a3 0 (IntCell step) = Inr ?s4"
    by (rule write_scalar[where ?c0.0 = "RawCell 0"]) (use bs os cs ds in simp_all)
  have b4: "?s4 ! buf a4 = replicate n (RawCell 0)"
    using bs cs ds by simp
  have w4: "for_loop (stamp_body a4 eid) 0 n ?s4 = Inr ?s5"
    using stamp_loop[of a4 ?s4 n eid] bs os b4 by simp
  have st: "stamp_mandatory keys state b eid step n s1 = Inr ?s5"
    by (simp add: stamp_mandatory_def nm w1 w2 w3 w4)
  have r: "?s5 ! buf a1 = [BoolCell b]" "?s5 ! buf a2 = [IntCell eid]"
    "?s5 ! buf a3 = [IntCell step]" "?s5 ! buf a4 = replicate n (IntCell eid)"
    using bs ds by simp_all
  have "contents ?s5 a1 = [BoolCell b]" "contents ?s5 a2 = [IntCell eid]"
    "contents ?s5 a3 = [IntCell step]" "contents ?s5 a4 = replicate n (IntCell eid)"
    unfolding contents_def r by (simp_all add: size_of_def os dm)
  then show ?thesis using st by blast
qed

lemma slot_field:
  assumes af: "alloc_fields (map snd kvs) n s = Inr (as, s1)"
    and m: "map_of kvs k = Some sp"
  shows "\<exists>i a. i < length kvs \<and> map fst kvs ! i = k \<and> named (map fst kvs) as k = Inr a
           \<and> buf a = length s + i \<and> buf a < length s1 \<and> offset a = 0
           \<and> dims a = map nat (shape (slot_shape sp n))
           \<and> s1 ! buf a = replicate (prod_list (map nat (shape (slot_shape sp n)))) (RawCell 0)"
proof -
  obtain i where ki: "key_index (map fst kvs) k = Some i" and i: "i < length kvs"
    and sp: "snd (kvs ! i) = sp"
    using key_index_map_of[OF m] by blast
  note A = alloc_fields_Inr[OF af]
  have la: "length as = length kvs" using A by simp
  have ai: "as ! i = \<lparr>buf = length s + i, offset = 0,
                       dims = map nat (shape (slot_shape sp n))\<rparr>"
    and bi: "s1 ! (length s + i)
               = replicate (prod_list (map nat (shape (slot_shape sp n)))) (RawCell 0)"
    using A i sp by auto
  have "named (map fst kvs) as k = Inr (as ! i)"
    using ki i la by (simp add: named_def)
  moreover have "map fst kvs ! i = k"
    using key_index_Some[OF ki] by simp
  moreover have "length s + i < length s1" using A i by simp
  ultimately show ?thesis using i ai bi by simp
qed

text \<open>
  C7. Let the queue be built for the state fields of the driver's spec, let that spec
  declare \<open>done\<close>, \<open>info:env_id\<close> and \<open>elapsed_step\<close> as scalar fields and
  \<open>info:players.env_id\<close> as a field of one cell per player, let the queue hand out the
  slot and let \<open>IsDone\<close> return \<open>b\<close>. Then \<open>Allocate(player_num)\<close> returns the state over
  the arrays of that slot, which is reserved for \<open>player_num\<close> rows at the driver's current
  ordinal and becomes the driver's \<open>slice_\<close>; and in the store after the call the field
  \<open>done\<close> holds \<open>b\<close>, \<open>info:env_id\<close> holds \<open>env_id_\<close>, \<open>elapsed_step\<close> holds the step
  counter, and \<open>info:players.env_id\<close> has \<open>player_num\<close> rows that all hold \<open>env_id_\<close>.
  Without an argument, \<open>player_num\<close> is 1.
\<close>

theorem Allocate_stamps_mandatory_fields:
  assumes q: "sbq (drv w) = Some q"
    and fs: "field_specs q = map snd (state_spec (spec (drv w)))"
    and k1: "map_of (state_spec (spec (drv w))) ''done'' = Some \<lparr>shape = []\<rparr>"
    and k2: "map_of (state_spec (spec (drv w))) ''info:env_id'' = Some \<lparr>shape = []\<rparr>"
    and k3: "map_of (state_spec (spec (drv w))) ''elapsed_step'' = Some \<lparr>shape = []\<rparr>"
    and k4: "map_of (state_spec (spec (drv w))) ''info:players.env_id'' = Some \<lparr>shape = [- 1]\<rparr>"
    and al: "sbq_Allocate q player_num (order (drv w)) (heap w) = Inr (sl, q1, s1)"
    and isd: "is_done (w\<lparr>drv := (drv w)\<lparr>sbq := Some q1, slice := sl\<rparr>, heap := s1\<rparr>) = Inr b"
  shows "\<exists>state w'. Allocate is_done player_num w = Inr (state, w')
           \<and> state = arr sl \<and> slice (drv w') = sl
           \<and> done_write sl = SlotDone (queue_addr q) (order (drv w))
           \<and> sbq (drv w') = Some q1
           \<and> reserved q1 = reserved q @ [(order (drv w), player_num)]
           \<and> (\<exists>a. named (map fst (state_spec (spec (drv w)))) state ''done'' = Inr a
                  \<and> contents (heap w') a = [BoolCell b])
           \<and> (\<exists>a. named (map fst (state_spec (spec (drv w)))) state ''info:env_id'' = Inr a
                  \<and> contents (heap w') a = [IntCell (env_id (drv w))])
           \<and> (\<exists>a. named (map fst (state_spec (spec (drv w)))) state ''elapsed_step'' = Inr a
                  \<and> contents (heap w') a = [IntCell (elapsed_step (drv w))])
           \<and> (\<exists>a. named (map fst (state_spec (spec (drv w)))) state ''info:players.env_id'' = Inr a
                  \<and> dims a = [player_num]
                  \<and> contents (heap w') a = replicate player_num (IntCell (env_id (drv w))))
           \<and> Allocate_default is_done w = Allocate is_done 1 w"
proof -
  let ?kvs = "state_spec (spec (drv w))"
  let ?keys = "map fst ?kvs"
  let ?n = player_num
  have af: "alloc_fields (map snd ?kvs) ?n (heap w) = Inr (arr sl, s1)"
    and dw: "done_write sl = SlotDone (queue_addr q) (order (drv w))"
    and q1: "q1 = q\<lparr>reserved := reserved q @ [(order (drv w), ?n)]\<rparr>"
    using al fs by (auto simp: sbq_Allocate_def split: sum.splits)
  have sc: "map nat (shape (slot_shape \<lparr>shape = []\<rparr> ?n)) = []"
    "prod_list (map nat (shape (slot_shape \<lparr>shape = []\<rparr> ?n))) = 1"
    and pl: "map nat (shape (slot_shape \<lparr>shape = [- 1]\<rparr> ?n)) = [?n]"
    "prod_list (map nat (shape (slot_shape \<lparr>shape = [- 1]\<rparr> ?n))) = ?n"
    by (simp_all add: slot_shape_def)
  obtain i1 a1 where f1: "i1 < length ?kvs" "?keys ! i1 = ''done''"
    "named ?keys (arr sl) ''done'' = Inr a1" "buf a1 = length (heap w) + i1"
    "buf a1 < length s1" "offset a1 = 0" "dims a1 = []" "s1 ! buf a1 = [RawCell 0]"
    using slot_field[OF af k1] unfolding sc by (auto simp: numeral_eq_Suc)
  obtain i2 a2 where f2: "i2 < length ?kvs" "?keys ! i2 = ''info:env_id''"
    "named ?keys (arr sl) ''info:env_id'' = Inr a2" "buf a2 = length (heap w) + i2"
    "buf a2 < length s1" "offset a2 = 0" "dims a2 = []" "s1 ! buf a2 = [RawCell 0]"
    using slot_field[OF af k2] unfolding sc by (auto simp: numeral_eq_Suc)
  obtain i3 a3 where f3: "i3 < length ?kvs" "?keys ! i3 = ''elapsed_step''"
    "named ?keys (arr sl) ''elapsed_step'' = Inr a3" "buf a3 = length (heap w) + i3"
    "buf a3 < length s1" "offset a3 = 0" "dims a3 = []" "s1 ! buf a3 = [RawCell 0]"
    using slot_field[OF af k3] unfolding sc by (auto simp: numeral_eq_Suc)
  obtain i4 a4 where f4: "i4 < length ?kvs" "?keys ! i4 = ''info:players.env_id''"
    "named ?keys (arr sl) ''info:players.env_id'' = Inr a4" "buf a4 = length (heap w) + i4"
    "buf a4 < length s1" "offset a4 = 0" "dims a4 = [?n]"
    "s1 ! buf a4 = replicate ?n (RawCell 0)"
    using slot_field[OF af k4] unfolding pl by auto
  have ne: "i1 \<noteq> i2" "i1 \<noteq> i3" "i1 \<noteq> i4" "i2 \<noteq> i3" "i2 \<noteq> i4" "i3 \<noteq> i4"
    using f1(2) f2(2) f3(2) f4(2) by auto
  have ds: "buf a1 \<noteq> buf a2" "buf a1 \<noteq> buf a3" "buf a1 \<noteq> buf a4" "buf a2 \<noteq> buf a3"
      "buf a2 \<noteq> buf a4" "buf a3 \<noteq> buf a4"
    using ne f1(4) f2(4) f3(4) f4(4) by simp_all
  obtain s5 where st: "stamp_mandatory ?keys (arr sl) b (env_id (drv w)) (elapsed_step (drv w)) ?n s1
                         = Inr s5"
    and c: "contents s5 a1 = [BoolCell b]" "contents s5 a2 = [IntCell (env_id (drv w))]"
      "contents s5 a3 = [IntCell (elapsed_step (drv w))]"
      "contents s5 a4 = replicate ?n (IntCell (env_id (drv w)))"
    using stamp_mandatory_Inr[OF f1(3) f2(3) f3(3) f4(3) ds f1(5) f2(5) f3(5) f4(5)
        f1(6) f2(6) f3(6) f4(6) f1(7) f2(7) f3(7) f4(7) f1(8) f2(8) f3(8) f4(8),
        of b "env_id (drv w)" "elapsed_step (drv w)"]
    by blast
  let ?w' = "w\<lparr>drv := (drv w)\<lparr>sbq := Some q1, slice := sl\<rparr>, heap := s5\<rparr>"
  have A: "Allocate is_done ?n w = Inr (arr sl, ?w')"
    using q al isd st by (simp add: Allocate_def Let_def)
  have "heap ?w' = s5" "slice (drv ?w') = sl" "sbq (drv ?w') = Some q1"
    by simp_all
  moreover have "reserved q1 = reserved q @ [(order (drv w), ?n)]"
    using q1 by simp
  moreover have "Allocate_default is_done w = Allocate is_done 1 w"
    by (simp add: Allocate_default_def)
  ultimately show ?thesis
    using A dw c f1(3) f2(3) f3(3) f4(3) f4(7)
    by (intro exI[of _ "arr sl"] exI[of _ ?w']) simp
qed

theorem Allocate_stamps_mandatory_fields_witness:
  "sbq (drv (ex_world_stepped 2 4)) = Some ex_queue
   \<and> field_specs ex_queue = map snd (state_spec (spec (drv (ex_world_stepped 2 4))))
   \<and> order (drv (ex_world_stepped 2 4)) = 4
   \<and> env_id (drv (ex_world_stepped 2 4)) = 2
   \<and> elapsed_step (drv (ex_world_stepped 2 4)) = 1
   \<and> (\<exists>state w'. Allocate ex_IsDone 2 (ex_world_stepped 2 4) = Inr (state, w')
         \<and> map (contents (heap w')) state
             = [[BoolCell True], [IntCell 2], [IntCell 1], [IntCell 2, IntCell 2],
                [RawCell 0, RawCell 0, RawCell 0, RawCell 0]]
         \<and> done_write (slice (drv w')) = SlotDone 0 4
         \<and> map_option reserved (sbq (drv w')) = Some [(4, 2)]
         \<and> (\<exists>a. named (map fst (state_spec ex_spec)) state ''done'' = Inr a
                \<and> contents (heap w') a = [BoolCell True])
         \<and> (\<exists>a. named (map fst (state_spec ex_spec)) state ''info:env_id'' = Inr a
                \<and> contents (heap w') a = [IntCell 2])
         \<and> (\<exists>a. named (map fst (state_spec ex_spec)) state ''elapsed_step'' = Inr a
                \<and> contents (heap w') a = [IntCell 1])
         \<and> (\<exists>a. named (map fst (state_spec ex_spec)) state ''info:players.env_id'' = Inr a
                \<and> dims a = [2] \<and> contents (heap w') a = [IntCell 2, IntCell 2]))"
proof -
  let ?w = "ex_world_stepped 2 4"
  have d: "sbq (drv ?w) = Some ex_queue" "order (drv ?w) = 4" "env_id (drv ?w) = 2"
    "elapsed_step (drv ?w) = 1" "spec (drv ?w) = ex_spec" "heap ?w = ex_store_grouped"
    by (simp_all add: ex_world_stepped_def ex_world_def PreProcess_def ex_defs)
  have fs: "field_specs ex_queue = map snd (state_spec (spec (drv ?w)))"
    unfolding d by (simp add: ex_queue_def)
  have k: "map_of (state_spec (spec (drv ?w))) ''done'' = Some \<lparr>shape = []\<rparr>"
    "map_of (state_spec (spec (drv ?w))) ''info:env_id'' = Some \<lparr>shape = []\<rparr>"
    "map_of (state_spec (spec (drv ?w))) ''elapsed_step'' = Some \<lparr>shape = []\<rparr>"
    "map_of (state_spec (spec (drv ?w))) ''info:players.env_id'' = Some \<lparr>shape = [- 1]\<rparr>"
    unfolding d by (simp_all add: ex_spec_def)
  have "map_sum id (\<lambda>x. ()) (sbq_Allocate ex_queue 2 4 ex_store_grouped) = Inr ()"
    by code_simp
  then obtain sl q1 s1 where al: "sbq_Allocate ex_queue 2 (order (drv ?w)) (heap ?w) = Inr (sl, q1, s1)"
    unfolding d by (cases "sbq_Allocate ex_queue 2 4 ex_store_grouped") auto
  have isd: "ex_IsDone (?w\<lparr>drv := (drv ?w)\<lparr>sbq := Some q1, slice := sl\<rparr>, heap := s1\<rparr>) = Inr True"
    by (simp add: ex_IsDone_def ex_world_stepped_def ex_world_def)
  have ev: "map_sum id (\<lambda>(state, w'). map (contents (heap w')) state) (Allocate ex_IsDone 2 ?w)
      = Inr [[BoolCell True], [IntCell 2], [IntCell 1], [IntCell 2, IntCell 2],
             [RawCell 0, RawCell 0, RawCell 0, RawCell 0]]"
    by code_simp
  from Allocate_stamps_mandatory_fields[where is_done = ex_IsDone, OF d(1) fs k al isd]
  obtain state w' where A: "Allocate ex_IsDone 2 ?w = Inr (state, w')"
    and R: "slice (drv w') = sl" "done_write sl = SlotDone (queue_addr ex_queue) (order (drv ?w))"
      "sbq (drv w') = Some q1" "reserved q1 = reserved ex_queue @ [(order (drv ?w), 2)]"
      "\<exists>a. named (map fst (state_spec (spec (drv ?w)))) state ''done'' = Inr a
            \<and> contents (heap w') a = [BoolCell True]"
      "\<exists>a. named (map fst (state_spec (spec (drv ?w)))) state ''info:env_id'' = Inr a
            \<and> contents (heap w') a = [IntCell (env_id (drv ?w))]"
      "\<exists>a. named (map fst (state_spec (spec (drv ?w)))) state ''elapsed_step'' = Inr a
            \<and> contents (heap w') a = [IntCell (elapsed_step (drv ?w))]"
      "\<exists>a. named (map fst (state_spec (spec (drv ?w)))) state ''info:players.env_id'' = Inr a
            \<and> dims a = [2]
            \<and> contents (heap w') a = replicate 2 (IntCell (env_id (drv ?w)))"
    by blast
  have c: "map (contents (heap w')) state
             = [[BoolCell True], [IntCell 2], [IntCell 1], [IntCell 2, IntCell 2],
                [RawCell 0, RawCell 0, RawCell 0, RawCell 0]]"
    using ev A by simp
  have r: "map_option reserved (sbq (drv w')) = Some [(4, 2)]"
    using R(3,4) d by (simp add: ex_queue_def)
  have dw: "done_write (slice (drv w')) = SlotDone 0 4"
    using R(1,2) d by (simp add: ex_queue_def)
  have two: "replicate 2 (IntCell 2) = [IntCell 2, IntCell 2]"
    by (simp add: numeral_2_eq_2)
  note N = R(5-8)[unfolded d two]
  show ?thesis
    by (intro conjI exI[of _ state] exI[of _ w']) (rule d(1-4) fs A c r dw N)+
qed

subsection \<open>The path taken\<close>

text \<open>
  C2. \<open>ParseAction\<close> takes the zero-copy slice for the per-player fields exactly when
  the flag \<open>continuous\<close> computed in lines 99 to 106 is set. For the matched indices
  \<open>idx\<close> that the scan returns, the flag is set if and only if there is at least one
  match and the last index minus the first plus one equals the number of matches, which is
  the case if and only if \<open>idx\<close> is the unbroken run of that length starting at its first
  element. The flag is never set when there is no match, and when it is set the matched
  indices are exactly the rows \<open>[start, end)\<close>. In the raw action that \<open>ParseAction\<close>
  returns in a multi-player environment, the entry of a per-player field is the slice
  \<open>[start, end)\<close> of the batch field when the flag is set, and otherwise an array of
  \<open>player_num\<close> rows in a buffer that did not exist before the call.
\<close>

theorem continuous_iff_contiguous_run:
  assumes "env_player_scan d s = Inr idx"
  shows "(fst (contiguity idx)
            \<longleftrightarrow> 0 < length idx \<and> int (last idx) - int (hd idx) + 1 = int (length idx))
       \<and> (fst (contiguity idx) \<longleftrightarrow> idx \<noteq> [] \<and> idx = [hd idx..<hd idx + length idx])
       \<and> (length idx = 0 \<longrightarrow> \<not> fst (contiguity idx))
       \<and> (fst (contiguity idx)
            \<longrightarrow> idx = [fst (snd (contiguity idx))..<snd (snd (contiguity idx))])
       \<and> (\<forall>batch d' s' i.
             action_batch d = Some batch \<and> \<not> is_single_player d
             \<and> ParseAction d s = Inr (d', s') \<and> i < length batch \<and> is_player_action d ! i
             \<longrightarrow> (if fst (contiguity idx)
                  then Slice (batch ! i) (fst (snd (contiguity idx))) (snd (snd (contiguity idx)))
                         = Inr (raw_action d' ! i)
                  else length s \<le> buf (raw_action d' ! i)
                       \<and> hd (dims (raw_action d' ! i)) = length idx))"
proof -
  have flag: "(fst (contiguity idx)
            \<longleftrightarrow> 0 < length idx \<and> int (last idx) - int (hd idx) + 1 = int (length idx))
       \<and> (fst (contiguity idx) \<longleftrightarrow> idx \<noteq> [] \<and> idx = [hd idx..<hd idx + length idx])
       \<and> (length idx = 0 \<longrightarrow> \<not> fst (contiguity idx))
       \<and> (fst (contiguity idx)
            \<longrightarrow> idx = [fst (snd (contiguity idx))..<snd (snd (contiguity idx))])"
  proof (cases "idx = []")
    case True
    then show ?thesis by (simp add: contiguity_def)
  next
    case False
    have inc: "sorted_wrt (<) idx"
      using assms player_scan_increasing
      by (auto simp: env_player_scan_def split: option.splits if_splits)
    have hl: "idx ! 0 = hd idx" "idx ! (length idx - 1) = last idx"
      using False by (simp_all add: hd_conv_nth last_conv_nth)
    have c: "fst (contiguity idx) = (int (length idx) = int (last idx + 1) - int (hd idx))"
      and se: "fst (snd (contiguity idx)) = hd idx" "snd (snd (contiguity idx)) = last idx + 1"
      using False hl by (simp_all add: contiguity_def Let_def)
    have run: "(idx = [hd idx..<hd idx + length idx]) = (last idx + 1 = hd idx + length idx)"
      using increasing_run[OF inc False, of "hd idx"] by simp
    have le: "hd idx + length idx \<le> last idx + 1"
      by (rule increasing_span[OF inc False])
    have c': "fst (contiguity idx) = (last idx + 1 = hd idx + length idx)"
      using c le by auto
    show ?thesis
      using False c' run se by auto
  qed
  have path: "if fst (contiguity idx)
          then Slice (batch ! i) (fst (snd (contiguity idx))) (snd (snd (contiguity idx)))
                 = Inr (raw_action d' ! i)
          else length s \<le> buf (raw_action d' ! i) \<and> hd (dims (raw_action d' ! i)) = length idx"
    if h: "action_batch d = Some batch \<and> \<not> is_single_player d
             \<and> ParseAction d s = Inr (d', s') \<and> i < length batch \<and> is_player_action d ! i"
    for batch d' s' i
  proof -
    let ?d0 = "d\<lparr>raw_action := []\<rparr>"
    have lp: "for_loop (multi_body batch idx (fst (contiguity idx)) (fst (snd (contiguity idx)))
        (snd (snd (contiguity idx)))) 0 (length batch) (?d0, s) = Inr (d', s')"
      using h assms ParseAction_unfold[of d batch s] by simp
    have sel: "is_player_action ?d0 = is_player_action d" "raw_action ?d0 = []" by simp_all
    from multi_loop_Inr[OF lp sel(2), unfolded sel] h show ?thesis
      by (auto split: if_splits)
  qed
  show ?thesis
    using flag path by blast
qed

theorem continuous_iff_contiguous_run_witness:
  "env_player_scan (ex_env 0 0) ex_store_scattered = Inr [0, 2]
   \<and> \<not> fst (contiguity [0, 2])
   \<and> env_player_scan (ex_env 2 2) ex_store_scattered = Inr [3, 4]
   \<and> contiguity [3, 4] = (True, 3, 5)
   \<and> env_player_scan (ex_env 7 0) ex_store_scattered = Inr []
   \<and> \<not> fst (contiguity [])
   \<and> map_sum id (\<lambda>(d', s'). raw_action d') (ParseAction (ex_env 0 0) ex_store_scattered)
        = Inr [\<lparr>buf = 0, offset = 0, dims = []\<rparr>, \<lparr>buf = 3, offset = 0, dims = [2]\<rparr>,
               \<lparr>buf = 4, offset = 0, dims = [2, 2]\<rparr>]
   \<and> map_sum id (\<lambda>(d', s'). raw_action d') (ParseAction (ex_env 2 2) ex_store_scattered)
        = Inr [\<lparr>buf = 0, offset = 2, dims = []\<rparr>, \<lparr>buf = 1, offset = 3, dims = [2]\<rparr>,
               \<lparr>buf = 2, offset = 6, dims = [2, 2]\<rparr>]
   \<and> Slice (ex_batch ! 2) 3 5 = Inr \<lparr>buf = 2, offset = 6, dims = [2, 2]\<rparr>"
proof -
  have u: "[0..<5] = [0, 1, 2, 3, 4::nat]" by (simp add: upt_rec)
  have sc: "env_player_scan (ex_env 0 0) ex_store_scattered = Inr [0, 2]"
    "env_player_scan (ex_env 2 2) ex_store_scattered = Inr [3, 4]"
    "env_player_scan (ex_env 7 0) ex_store_scattered = Inr []"
    by (simp_all add: env_player_scan_def ex_defs player_scan_exact u)
  have v: "[3..<5] = [3, 4::nat]" by (simp add: upt_rec)
  have c: "\<not> fst (contiguity [0, 2])" "contiguity [3, 4] = (True, 3, 5)" "\<not> fst (contiguity [])"
    using continuous_iff_contiguous_run[OF sc(1)] continuous_iff_contiguous_run[OF sc(2)]
      continuous_iff_contiguous_run[OF sc(3)]
    by (simp_all add: contiguity_def)
  have r1: "map_sum id (\<lambda>(d', s'). raw_action d') (ParseAction (ex_env 0 0) ex_store_scattered)
        = Inr [\<lparr>buf = 0, offset = 0, dims = []\<rparr>, \<lparr>buf = 3, offset = 0, dims = [2]\<rparr>,
               \<lparr>buf = 4, offset = 0, dims = [2, 2]\<rparr>]"
    by code_simp
  have r2: "map_sum id (\<lambda>(d', s'). raw_action d') (ParseAction (ex_env 2 2) ex_store_scattered)
        = Inr [\<lparr>buf = 0, offset = 2, dims = []\<rparr>, \<lparr>buf = 1, offset = 3, dims = [2]\<rparr>,
               \<lparr>buf = 2, offset = 6, dims = [2, 2]\<rparr>]"
    by code_simp
  obtain d2 s2 where p2: "ParseAction (ex_env 2 2) ex_store_scattered = Inr (d2, s2)"
    and q2: "raw_action d2 ! 2 = \<lparr>buf = 2, offset = 6, dims = [2, 2]\<rparr>"
    using r2 by (cases "ParseAction (ex_env 2 2) ex_store_scattered") auto
  have e: "action_batch (ex_env 2 2) = Some ex_batch" "\<not> is_single_player (ex_env 2 2)"
    "is_player_action (ex_env 2 2) ! 2" "2 < length ex_batch"
    by (simp_all add: ex_defs)
  have "Slice (ex_batch ! 2) 3 5 = Inr (raw_action d2 ! 2)"
    using continuous_iff_contiguous_run[OF sc(2)] e p2 c(2) by fastforce
  then show ?thesis
    using sc c r1 r2 q2 by simp
qed

subsection \<open>The rows of a multi-player entry\<close>

lemma contiguity_run:
  assumes inc: "sorted_wrt (<) idx" and c: "fst (contiguity idx)"
  shows "idx \<noteq> [] \<and> idx = [fst (snd (contiguity idx))..<snd (snd (contiguity idx))]
       \<and> snd (snd (contiguity idx)) = last idx + 1
       \<and> snd (snd (contiguity idx)) - fst (snd (contiguity idx)) = length idx"
proof -
  have ne: "idx \<noteq> []" using c by (auto simp: contiguity_def)
  have hl: "idx ! 0 = hd idx" "idx ! (length idx - 1) = last idx"
    using ne by (simp_all add: hd_conv_nth last_conv_nth)
  have f: "int (length idx) = int (last idx + 1) - int (hd idx)"
    and se: "fst (snd (contiguity idx)) = hd idx" "snd (snd (contiguity idx)) = last idx + 1"
    using ne hl c by (simp_all add: contiguity_def Let_def)
  have le: "hd idx + length idx \<le> last idx + 1"
    by (rule increasing_span[OF inc ne])
  have e: "last idx + 1 = hd idx + length idx" using f le by linarith
  have run: "idx = [hd idx..<hd idx + length idx]"
    using increasing_run[OF inc ne, of "hd idx"] e by simp
  have r2: "[fst (snd (contiguity idx))..<snd (snd (contiguity idx))]
      = [hd idx..<hd idx + length idx]"
    by (simp only: se e)
  show ?thesis
  proof (intro conjI)
    show "idx \<noteq> []" by (rule ne)
    show "idx = [fst (snd (contiguity idx))..<snd (snd (contiguity idx))]"
      unfolding r2 by (rule run)
    show "snd (snd (contiguity idx)) = last idx + 1" by (rule se(2))
    show "snd (snd (contiguity idx)) - fst (snd (contiguity idx)) = length idx"
      unfolding se using e by simp
  qed
qed

lemma slice_matched_rows:
  assumes sl: "Slice f st en = Inr v" and run: "idx = [st..<en]"
    and old: "s' ! buf f = s ! buf f"
  shows "contents s' v = matched_rows s f idx \<and> dims v \<noteq> [] \<and> hd (dims v) = length idx"
proof -
  note S = Slice_Inr[OF sl]
  have r: "idx = [st..<st + (en - st)]" using run S by simp
  have "matched_rows s f idx
      = take ((en - st) * row_size f) (drop (offset f + st * row_size f) (s ! buf f))"
    unfolding matched_rows_def by (subst r) (rule concat_rows_run)
  also have "\<dots> = contents s' v"
    using S old by (simp add: contents_def)
  finally show ?thesis using S run by simp
qed

lemma multi_loop_rows:
  assumes lp: "for_loop (multi_body batch idx c st en) 0 n (d0, s) = Inr (d', s')"
    and r0: "raw_action d0 = []"
  shows "\<forall>i<n. is_player_action d0 ! i \<and> \<not> c \<and> buf (batch ! i) < length s \<longrightarrow>
           contents s' (raw_action d' ! i) = matched_rows s (batch ! i) idx"
proof -
  let ?Q = "\<lambda>sj i v. is_player_action d0 ! i \<and> \<not> c \<and> buf (batch ! i) < length s \<longrightarrow>
               buf v < length sj \<and> contents sj v = matched_rows s (batch ! i) idx"
  let ?P = "\<lambda>j x. is_player_action (fst x) = is_player_action d0
              \<and> length (raw_action (fst x)) = j
              \<and> length s \<le> length (snd x) \<and> take (length s) (snd x) = s
              \<and> (\<forall>i<j. ?Q (snd x) i (raw_action (fst x) ! i))"
  have "?P n (d', s')"
  proof (rule for_loop_invariant[where P = ?P, OF lp])
    show "?P 0 (d0, s)" using r0 by simp
    show "0 \<le> n" by simp
    fix j x x' assume p: "?P j x" and b: "multi_body batch idx c st en j x = Inr x'"
    obtain d1 s1 where x: "x = (d1, s1)" by (cases x)
    obtain d2 s2 where x': "x' = (d2, s2)" by (cases x')
    have ip: "is_player_action d1 = is_player_action d0"
      and len: "length (raw_action d1) = j"
      and s1: "length s \<le> length s1" "take (length s) s1 = s"
      and pq: "\<forall>i<j. ?Q s1 i (raw_action d1 ! i)"
      using p unfolding x fst_conv snd_conv by blast+
    from multi_body_Inr[OF b[unfolded x x']] obtain v where
      v: "d2 = d1\<lparr>action_specs := action_specs d2, raw_action := raw_action d1 @ [v]\<rparr>"
      and s2: "length s1 \<le> length s2" "take (length s1) s2 = s1"
      and q: "if is_player_action d1 ! j
               then (if c then Slice (batch ! j) st en = Inr v \<and> s2 = s1
                     else gather_entry batch idx j (d1, s1) = Inr (d2, s2)
                          \<and> dims v \<noteq> [] \<and> hd (dims v) = length idx \<and> buf v = length s1
                          \<and> offset v = 0)
               else Index (batch ! j) (env_index d1) = Inr v \<and> s2 = s1"
      by blast
    have rv: "raw_action d2 = raw_action d1 @ [v]"
      by (subst v) simp
    have ip2: "is_player_action d2 = is_player_action d0"
      by (subst v) (simp add: ip)
    have keep1: "s2 ! k = s1 ! k" if "k < length s1" for k
    proof -
      have "take (length s1) s2 ! k = s2 ! k" using that by simp
      then show ?thesis using s2(2) by simp
    qed
    have keep0: "s1 ! k = s ! k" if "k < length s" for k
    proof -
      have "take (length s) s1 ! k = s1 ! k" using that by simp
      then show ?thesis using s1(2) by simp
    qed
    have t2: "take (length s) s2 = s"
    proof -
      have "take (length s) (take (length s1) s2) = take (length s) s2"
        using s1(1) by (simp add: min_def)
      then show ?thesis using s2(2) s1(2) by simp
    qed
    have "\<forall>i<Suc j. ?Q s2 i (raw_action d2 ! i)"
    proof (rule allI, rule impI)
      fix i assume "i < Suc j"
      then consider "i < j" | "i = j" by linarith
      then show "?Q s2 i (raw_action d2 ! i)"
      proof cases
        case 1
        then have e: "raw_action d2 ! i = raw_action d1 ! i"
          using len rv by (simp add: nth_append)
        have o: "?Q s1 i (raw_action d1 ! i)" using pq 1 by blast
        show ?thesis
        proof (intro impI)
          assume h: "is_player_action d0 ! i \<and> \<not> c \<and> buf (batch ! i) < length s"
          then have bl: "buf (raw_action d1 ! i) < length s1"
            and co: "contents s1 (raw_action d1 ! i) = matched_rows s (batch ! i) idx"
            using o by blast+
          have "s2 ! buf (raw_action d1 ! i) = s1 ! buf (raw_action d1 ! i)"
            by (rule keep1[OF bl])
          then have "contents s2 (raw_action d1 ! i) = contents s1 (raw_action d1 ! i)"
            by (simp add: contents_def)
          then show "buf (raw_action d2 ! i) < length s2
              \<and> contents s2 (raw_action d2 ! i) = matched_rows s (batch ! i) idx"
            unfolding e using bl co s2(1) by simp
        qed
      next
        case 2
        have e: "raw_action d2 ! j = v"
          using len rv by (simp add: nth_append)
        show ?thesis unfolding 2 e
        proof (intro impI)
          assume h: "is_player_action d0 ! j \<and> \<not> c \<and> buf (batch ! j) < length s"
          then have g: "gather_entry batch idx j (d1, s1) = Inr (d2, s2)"
            using q ip by simp
          have f1: "buf (batch ! j) < length s1" using h s1(1) by simp
          from gather_entry_Inr[OF f1 g] obtain a where
            a: "raw_action d2 = raw_action d1 @ [a]" "buf a = length s1"
            and s2e: "s2 = s1 @ [concat (map (\<lambda>k. take (row_size (batch ! j))
                     (drop (offset (batch ! j) + k * row_size (batch ! j)) (s1 ! buf (batch ! j)))) idx)]"
            and ca: "contents s2 a = concat (map (\<lambda>k. take (row_size (batch ! j))
                     (drop (offset (batch ! j) + k * row_size (batch ! j)) (s1 ! buf (batch ! j)))) idx)"
            by blast
          have av: "a = v" using a(1) rv by simp
          have "s1 ! buf (batch ! j) = s ! buf (batch ! j)"
            using keep0 h by blast
          then have "contents s2 v = matched_rows s (batch ! j) idx"
            using ca av by (simp add: matched_rows_def)
          moreover have "buf v < length s2" using a(2) av s2e by simp
          ultimately show "buf v < length s2 \<and> contents s2 v = matched_rows s (batch ! j) idx"
            by simp
        qed
      qed
    qed
    moreover have "length (raw_action d2) = Suc j" using len rv by simp
    moreover have "length s \<le> length s2" using s1 s2 by simp
    ultimately show "?P (Suc j) x'"
      unfolding x' fst_conv snd_conv using ip2 t2 by blast
  qed
  then show ?thesis unfolding fst_conv snd_conv by blast
qed

subsection \<open>ParseAction returns on a well-formed call\<close>

lemma size_of_rows: "dims f \<noteq> [] \<Longrightarrow> size_of f = hd (dims f) * row_size f"
  by (cases "dims f") (simp_all add: size_of_def row_size_def)

lemma length_write_at:
  "off + length ys \<le> length xs \<Longrightarrow> length (write_at xs off ys) = length xs"
  by (simp add: write_at_def)

lemma gather_body_total:
  assumes f: "in_store s f" "dims f \<noteq> []" and k: "idx ! j < hd (dims f)"
    and j: "j < length idx" and r: "prod_list rest = row_size f"
    and st: "length st = Suc (length s)" "\<forall>k<length s. st ! k = s ! k"
      "length (st ! length s) = length idx * row_size f"
  shows "\<exists>st'. gather_body \<lparr>buf = length s, offset = 0, dims = length idx # rest\<rparr> f idx j st = Inr st'
           \<and> length st' = Suc (length s) \<and> (\<forall>k<length s. st' ! k = s ! k)
           \<and> length (st' ! length s) = length idx * row_size f"
proof -
  let ?a = "\<lparr>buf = length s, offset = 0, dims = length idx # rest\<rparr>"
  let ?R = "row_size f"
  let ?tgt = "\<lparr>buf = length s, offset = j * ?R, dims = rest\<rparr>"
  let ?src = "\<lparr>buf = buf f, offset = offset f + idx ! j * ?R, dims = tl (dims f)\<rparr>"
  have t: "Index ?a j = Inr ?tgt"
    using j r by (simp add: Index_def row_size_def)
  have sr: "Index f (idx ! j) = Inr ?src"
    using f(2) k by (simp add: Index_def)
  have bf: "buf f < length s" and fit: "offset f + hd (dims f) * ?R \<le> length (s ! buf f)"
    using f size_of_rows[of f] by (simp_all add: in_store_def)
  have sz: "size_of ?tgt = ?R" "size_of ?src = ?R"
    using r by (simp_all add: size_of_def row_size_def)
  have "Suc (idx ! j) * ?R \<le> hd (dims f) * ?R"
    using k by (intro mult_le_mono1) simp
  then have srcfit: "offset f + idx ! j * ?R + ?R \<le> length (s ! buf f)"
    using fit by simp
  have "Suc j * ?R \<le> length idx * ?R"
    using j by (intro mult_le_mono1) simp
  then have tgtfit: "j * ?R + ?R \<le> length (st ! length s)"
    using st(3) by simp
  have sb: "st ! buf f = s ! buf f" using st(2) bf by simp
  have i1: "in_store st ?tgt"
    using st(1) tgtfit sz by (simp add: in_store_def)
  have i2: "in_store st ?src"
    using st(1) bf sb srcfit sz by (simp add: in_store_def)
  let ?row = "contents st ?src"
  have lr: "length ?row = ?R"
    using srcfit sb sz by (simp add: contents_def)
  let ?st' = "st[length s := write_at (st ! length s) (j * ?R) ?row]"
  have as: "Assign st ?tgt ?src = Inr ?st'"
    using i1 i2 sz by (simp add: Assign_def)
  have g: "gather_body ?a f idx j st = Inr ?st'"
    by (simp add: gather_body_def Let_def t sr as)
  have "length (?st' ! length s) = length (st ! length s)"
    using st(1) tgtfit lr by (simp add: length_write_at)
  moreover have "\<forall>k<length s. ?st' ! k = s ! k"
    using st(2) by simp
  ultimately show ?thesis
    using g st by simp
qed

lemma gather_loop_total:
  assumes f: "in_store s f" "dims f \<noteq> []" and k: "\<forall>k\<in>set idx. k < hd (dims f)"
    and r: "prod_list rest = row_size f"
  shows "\<exists>s2. for_loop (gather_body \<lparr>buf = length s, offset = 0, dims = length idx # rest\<rparr> f idx)
                  0 (length idx) (s @ [replicate (length idx * prod_list rest) fill]) = Inr s2"
proof -
  let ?P = "\<lambda>j::nat. \<lambda>st. length st = Suc (length s) \<and> (\<forall>k<length s. st ! k = s ! k)
              \<and> length (st ! length s) = length idx * row_size f"
  have "\<exists>s2. for_loop (gather_body \<lparr>buf = length s, offset = 0, dims = length idx # rest\<rparr> f idx)
                  0 (length idx) (s @ [replicate (length idx * prod_list rest) fill]) = Inr s2
            \<and> ?P (length idx) s2"
  proof (rule for_loop_total[where P = ?P])
    show "?P 0 (s @ [replicate (length idx * prod_list rest) fill])"
      using r by (simp add: nth_append)
    show "0 \<le> length idx" by simp
    fix j st assume j: "j < length idx" and p: "?P j st"
    have kj: "idx ! j < hd (dims f)" using k j by simp
    show "\<exists>a'. gather_body \<lparr>buf = length s, offset = 0, dims = length idx # rest\<rparr> f idx j st = Inr a'
            \<and> ?P (Suc j) a'"
      using gather_body_total[OF f kj j r, of st] p by blast
  qed
  then show ?thesis by blast
qed

lemma gather_entry_total:
  assumes f: "in_store s (batch ! i)" "dims (batch ! i) \<noteq> []"
    and k: "\<forall>k\<in>set idx. k < hd (dims (batch ! i))"
    and sp: "i < length (action_specs d)" "shape (action_specs d ! i) \<noteq> []"
      "\<not> list_ex (\<lambda>x. x < 0) (tl (shape (action_specs d ! i)))"
      "prod_list (map nat (tl (shape (action_specs d ! i)))) = row_size (batch ! i)"
  shows "\<exists>d' s'. gather_entry batch idx i (d, s) = Inr (d', s')"
proof -
  obtain x xs where sh: "shape (action_specs d ! i) = x # xs"
    using sp(2) by (cases "shape (action_specs d ! i)") auto
  have nn: "\<not> list_ex (\<lambda>x. x < 0) xs" and pr: "prod_list (map nat xs) = row_size (batch ! i)"
    using sp(3,4) sh by simp_all
  obtain s2 where "for_loop (gather_body \<lparr>buf = length s, offset = 0, dims = length idx # map nat xs\<rparr>
                   (batch ! i) idx)
                  0 (length idx) (s @ [replicate (length idx * prod_list (map nat xs)) (RawCell 0)]) = Inr s2"
    using gather_loop_total[OF f k pr, of "RawCell 0"] by blast
  then show ?thesis
    using sp(1) sh nn by (simp add: new_Array_def Let_def)
qed

lemma multi_loop_total:
  assumes n: "n \<le> length (is_player_action d0)"
    and ks: "\<forall>k\<in>set idx. k < m"
    and sl: "c \<longrightarrow> st \<le> en \<and> en \<le> m"
    and wf: "\<And>i. i < n \<Longrightarrow>
           if is_player_action d0 ! i
           then in_store s (batch ! i) \<and> dims (batch ! i) \<noteq> [] \<and> m \<le> hd (dims (batch ! i))
                \<and> i < length (action_specs d0) \<and> shape (action_specs d0 ! i) \<noteq> []
                \<and> \<not> list_ex (\<lambda>x. x < 0) (tl (shape (action_specs d0 ! i)))
                \<and> prod_list (map nat (tl (shape (action_specs d0 ! i)))) = row_size (batch ! i)
           else dims (batch ! i) \<noteq> [] \<and> env_index d0 < hd (dims (batch ! i))"
  shows "\<exists>r. for_loop (multi_body batch idx c st en) 0 n (d0, s) = Inr r"
proof -
  let ?body = "multi_body batch idx c st en"
  let ?P = "\<lambda>j. \<lambda>x::Env \<times> store. is_player_action (fst x) = is_player_action d0
              \<and> env_index (fst x) = env_index d0
              \<and> length (action_specs (fst x)) = length (action_specs d0)
              \<and> (\<forall>k\<ge>j. action_specs (fst x) ! k = action_specs d0 ! k)
              \<and> length s \<le> length (snd x) \<and> (\<forall>k<length s. snd x ! k = s ! k)"
  have "\<exists>r. for_loop ?body 0 n (d0, s) = Inr r \<and> ?P n r"
  proof (rule for_loop_total[where P = ?P])
    show "?P 0 (d0, s)" by simp
    show "0 \<le> n" by simp
    fix j x assume j: "j < n" and p: "?P j x"
    obtain d1 s1 where x: "x = (d1, s1)" by (cases x)
    have p1: "is_player_action d1 = is_player_action d0" "env_index d1 = env_index d0"
      "length (action_specs d1) = length (action_specs d0)"
      "action_specs d1 ! j = action_specs d0 ! j"
      and rest: "\<forall>k\<ge>Suc j. action_specs d1 ! k = action_specs d0 ! k"
      and s1: "length s \<le> length s1" "\<forall>k<length s. s1 ! k = s ! k"
      using p unfolding x fst_conv snd_conv by simp_all
    have jl: "j < length (is_player_action d0)" using j n by simp
    note w = wf[OF j]
    have ex: "\<exists>x'. ?body j (d1, s1) = Inr x'"
    proof (cases "is_player_action d0 ! j")
      case False
      then have "dims (batch ! j) \<noteq> []" "env_index d0 < hd (dims (batch ! j))"
        using w by simp_all
      then show ?thesis
        using False jl p1 by (simp add: Index_def)
    next
      case True
      then have f: "in_store s (batch ! j)" "dims (batch ! j) \<noteq> []"
        and mm: "m \<le> hd (dims (batch ! j))"
        and sp: "j < length (action_specs d1)" "shape (action_specs d1 ! j) \<noteq> []"
          "\<not> list_ex (\<lambda>x. x < 0) (tl (shape (action_specs d1 ! j)))"
          "prod_list (map nat (tl (shape (action_specs d1 ! j)))) = row_size (batch ! j)"
        using w p1 by simp_all
      show ?thesis
      proof (cases c)
        case True
        then have "st \<le> en" "en \<le> hd (dims (batch ! j))"
          using sl mm by simp_all
        then show ?thesis
          using \<open>is_player_action d0 ! j\<close> True jl p1 f(2) by (simp add: Slice_def)
      next
        case False
        have bf: "buf (batch ! j) < length s" using f(1) by (simp add: in_store_def)
        then have "s1 ! buf (batch ! j) = s ! buf (batch ! j)" using s1(2) by simp
        then have f1: "in_store s1 (batch ! j)"
          using f(1) s1(1) bf by (simp add: in_store_def)
        have k: "\<forall>k\<in>set idx. k < hd (dims (batch ! j))"
          using ks mm by auto
        obtain d2 s2 where "gather_entry batch idx j (d1, s1) = Inr (d2, s2)"
          using gather_entry_total[OF f1 f(2) k sp] by blast
        then show ?thesis
          using \<open>is_player_action d0 ! j\<close> False jl p1 by simp
      qed
    qed
    then obtain d2 s2 where b: "?body j (d1, s1) = Inr (d2, s2)"
      by (metis surj_pair)
    from multi_body_Inr[OF b] obtain v where
      v: "d2 = d1\<lparr>action_specs := action_specs d2, raw_action := raw_action d1 @ [v]\<rparr>"
      and la: "length (action_specs d2) = length (action_specs d1)"
      and ot: "\<forall>k. k \<noteq> j \<longrightarrow> action_specs d2 ! k = action_specs d1 ! k"
      and s2: "length s1 \<le> length s2" "take (length s1) s2 = s1"
      by blast
    have sel: "is_player_action d2 = is_player_action d1" "env_index d2 = env_index d1"
      by (subst v, simp)+
    have keep: "s2 ! k = s ! k" if "k < length s" for k
    proof -
      have "k < length s1" using that s1(1) by simp
      then have "take (length s1) s2 ! k = s2 ! k" by simp
      then show ?thesis using s2(2) s1(2) that by simp
    qed
    have "?P (Suc j) (d2, s2)"
      unfolding fst_conv snd_conv using sel p1 la ot rest s1 s2 keep by simp
    then show "\<exists>a'. ?body j x = Inr a' \<and> ?P (Suc j) a'"
      unfolding x using b by blast
  qed
  then show ?thesis by blast
qed

lemma player_scan_bound:
  assumes "player_scan s ids eid = Inr idx"
  shows "dims ids \<noteq> [] \<and> (\<forall>k\<in>set idx. k < hd (dims ids))"
proof -
  have ne: "dims ids \<noteq> []"
    using assms by (auto simp: player_scan_def Shape_def split: sum.splits if_splits)
  then have sh: "Shape ids 0 = Inr (hd (dims ids))"
    by (cases "dims ids") (simp_all add: Shape_def)
  have lp: "for_loop (scan_body s ids eid) 0 (hd (dims ids)) [] = Inr idx"
    using assms by (simp add: player_scan_def sh)
  let ?P = "\<lambda>j xs. \<forall>x\<in>set xs. x < (j::nat)"
  have "?P (hd (dims ids)) idx"
  proof (rule for_loop_invariant[where P = ?P, OF lp])
    show "?P 0 []" by simp
    show "0 \<le> hd (dims ids)" by simp
    fix j a a' assume "?P j a" "scan_body s ids eid j a = Inr a'"
    then show "?P (Suc j) a'"
      by (auto simp: scan_body_def less_Suc_eq split: sum.splits if_splits)
  qed
  then show ?thesis using ne by simp
qed

lemma multi_entry:
  assumes b: "action_batch d = Some batch" and m: "\<not> is_single_player d"
    and pa: "ParseAction d s = Inr (d', s')"
    and i: "i < length batch" and ip: "is_player_action d ! i"
  shows "\<exists>idx. env_player_scan d s = Inr idx
           \<and> dims (raw_action d' ! i) \<noteq> [] \<and> hd (dims (raw_action d' ! i)) = length idx
           \<and> (fst (contiguity idx) \<longrightarrow>
                 Slice (batch ! i) (fst (snd (contiguity idx))) (snd (snd (contiguity idx)))
                   = Inr (raw_action d' ! i))
           \<and> (\<not> fst (contiguity idx) \<longrightarrow> length s \<le> buf (raw_action d' ! i))
           \<and> (in_store s (batch ! i) \<longrightarrow>
                 contents s' (raw_action d' ! i) = matched_rows s (batch ! i) idx)"
proof -
  let ?d0 = "d\<lparr>raw_action := []\<rparr>"
  obtain idx where sc: "env_player_scan d s = Inr idx"
    and lp: "for_loop (multi_body batch idx (fst (contiguity idx)) (fst (snd (contiguity idx)))
        (snd (snd (contiguity idx)))) 0 (length batch) (?d0, s) = Inr (d', s')"
    using pa m by (auto simp: ParseAction_unfold[OF b] split: sum.splits)
  let ?c = "fst (contiguity idx)"
  let ?st = "fst (snd (contiguity idx))"
  let ?en = "snd (snd (contiguity idx))"
  let ?v = "raw_action d' ! i"
  have sel: "is_player_action ?d0 = is_player_action d" "raw_action ?d0 = []" by simp_all
  note M = multi_loop_Inr[OF lp sel(2), unfolded sel]
  note R = multi_loop_rows[OF lp sel(2), unfolded sel]
  have tk: "take (length s) s' = s" using M by blast
  have inc: "sorted_wrt (<) idx"
    using sc player_scan_increasing
    by (auto simp: env_player_scan_def b split: if_splits)
  have old: "s' ! buf (batch ! i) = s ! buf (batch ! i)" if "in_store s (batch ! i)"
  proof -
    have bl: "buf (batch ! i) < length s" using that by (simp add: in_store_def)
    then have "take (length s) s' ! buf (batch ! i) = s' ! buf (batch ! i)" by simp
    then show ?thesis using tk by simp
  qed
  show ?thesis
  proof (cases ?c)
    case True
    have sl: "Slice (batch ! i) ?st ?en = Inr ?v"
      using M i ip True by auto
    have run: "idx = [?st..<?en]"
      using contiguity_run[OF inc True] by blast
    note S = Slice_Inr[OF sl]
    have df: "?en - ?st = length idx"
      using contiguity_run[OF inc True] by blast
    have d: "dims ?v \<noteq> []" "hd (dims ?v) = length idx"
      using S df by simp_all
    have "contents s' ?v = matched_rows s (batch ! i) idx" if "in_store s (batch ! i)"
      using slice_matched_rows[OF sl run old[OF that]] by blast
    then show ?thesis using sc sl d True by blast
  next
    case False
    have d: "dims ?v \<noteq> []" "hd (dims ?v) = length idx" "length s \<le> buf ?v"
      using M i ip False by auto
    have "contents s' ?v = matched_rows s (batch ! i) idx" if "in_store s (batch ! i)"
    proof -
      have "buf (batch ! i) < length s" using that by (simp add: in_store_def)
      then show ?thesis using R i ip False by blast
    qed
    then show ?thesis using sc d False by blast
  qed
qed

lemma multi_total:
  assumes b: "action_batch d = Some batch" and m: "\<not> is_single_player d"
    and two: "1 < length batch"
    and ids: "dims (batch ! 1) \<noteq> []" "buf (batch ! 1) < length s"
      "offset (batch ! 1) + hd (dims (batch ! 1)) \<le> length (s ! buf (batch ! 1))"
    and n: "length batch \<le> length (is_player_action d)"
    and wf: "\<forall>i<length batch.
           if is_player_action d ! i
           then in_store s (batch ! i) \<and> dims (batch ! i) \<noteq> []
                \<and> hd (dims (batch ! 1)) \<le> hd (dims (batch ! i))
                \<and> i < length (action_specs d) \<and> shape (action_specs d ! i) \<noteq> []
                \<and> \<not> list_ex (\<lambda>x. x < 0) (tl (shape (action_specs d ! i)))
                \<and> prod_list (map nat (tl (shape (action_specs d ! i)))) = row_size (batch ! i)
           else dims (batch ! i) \<noteq> [] \<and> env_index d < hd (dims (batch ! i))"
  shows "\<exists>d' s'. ParseAction d s = Inr (d', s')"
proof -
  let ?d0 = "d\<lparr>raw_action := []\<rparr>"
  let ?m = "hd (dims (batch ! 1))"
  obtain idx where ps: "player_scan s (batch ! 1) (env_id d) = Inr idx"
    using player_scan_exact[OF ids] by blast
  have sc: "env_player_scan d s = Inr idx"
    using ps b two by (simp add: env_player_scan_def)
  have inc: "sorted_wrt (<) idx" using ps by (rule player_scan_increasing)
  have ks: "\<forall>k\<in>set idx. k < ?m" using player_scan_bound[OF ps] by blast
  let ?c = "fst (contiguity idx)"
  let ?st = "fst (snd (contiguity idx))"
  let ?en = "snd (snd (contiguity idx))"
  have sl: "?c \<longrightarrow> ?st \<le> ?en \<and> ?en \<le> ?m"
  proof
    assume c: ?c
    note C = contiguity_run[OF inc c]
    have ne: "idx \<noteq> []" and en: "?en = last idx + 1" and df: "?en - ?st = length idx"
      using C by blast+
    have "last idx \<in> set idx" using ne by simp
    then have "last idx < ?m" using ks by blast
    then have "?en \<le> ?m" using en by simp
    moreover have "0 < length idx" using ne by simp
    then have "?st \<le> ?en" using df by linarith
    ultimately show "?st \<le> ?en \<and> ?en \<le> ?m" by simp
  qed
  have "\<exists>r. for_loop (multi_body batch idx ?c ?st ?en) 0 (length batch) (?d0, s) = Inr r"
  proof (rule multi_loop_total[where m = ?m])
    show "length batch \<le> length (is_player_action ?d0)" using n by simp
    show "\<forall>k\<in>set idx. k < ?m" by (rule ks)
    show "?c \<longrightarrow> ?st \<le> ?en \<and> ?en \<le> ?m" by (rule sl)
    fix i assume "i < length batch"
    with wf have "if is_player_action d ! i
           then in_store s (batch ! i) \<and> dims (batch ! i) \<noteq> []
                \<and> hd (dims (batch ! 1)) \<le> hd (dims (batch ! i))
                \<and> i < length (action_specs d) \<and> shape (action_specs d ! i) \<noteq> []
                \<and> \<not> list_ex (\<lambda>x. x < 0) (tl (shape (action_specs d ! i)))
                \<and> prod_list (map nat (tl (shape (action_specs d ! i)))) = row_size (batch ! i)
           else dims (batch ! i) \<noteq> [] \<and> env_index d < hd (dims (batch ! i))"
      by blast
    then show "if is_player_action ?d0 ! i
           then in_store s (batch ! i) \<and> dims (batch ! i) \<noteq> [] \<and> ?m \<le> hd (dims (batch ! i))
                \<and> i < length (action_specs ?d0) \<and> shape (action_specs ?d0 ! i) \<noteq> []
                \<and> \<not> list_ex (\<lambda>x. x < 0) (tl (shape (action_specs ?d0 ! i)))
                \<and> prod_list (map nat (tl (shape (action_specs ?d0 ! i)))) = row_size (batch ! i)
           else dims (batch ! i) \<noteq> [] \<and> env_index ?d0 < hd (dims (batch ! i))"
      by (simp split: if_splits)
  qed
  then show ?thesis
    using m sc by (auto simp: ParseAction_unfold[OF b])
qed

text \<open>
  C5. Let a batch of \<open>k\<close> fields be attached. Whenever \<open>ParseAction\<close> returns, the raw
  action has exactly \<open>k\<close> entries, entry \<open>i\<close> made from field \<open>i\<close>. Every per-environment
  field, in a single-player and in a multi-player environment alike, gives the single row
  \<open>(*action_batch_)[i][env_index_]\<close>. In a single-player environment every per-player field
  gives the slice \<open>[env_index_, env_index_ + 1)\<close>, which has one row. In a multi-player
  environment every per-player field \<open>i\<close> gives an array of \<open>player_num\<close> rows, where
  \<open>player_num\<close> is the number of rows the scan has matched: the slice \<open>[start, end)\<close> of
  field \<open>i\<close> when the matches are contiguous and a new buffer otherwise, and in both cases,
  for a field that lies in the store, its cells are the matched rows of field \<open>i\<close> in match
  order. And \<open>ParseAction\<close> does return on a well-formed call: in a single-player
  environment whenever every field has a row \<open>env_index_\<close> and the driver knows of every
  field whether it is per-player; in a multi-player environment whenever moreover the id
  field lies in the store, every per-player field lies in the store with at least as many
  rows as the id field, and the driver's shape spec of it has no negative dimension and the
  row size of the field.
\<close>

theorem ParseAction_one_entry_per_field:
  assumes "action_batch d = Some batch"
  shows "(\<forall>d' s'. ParseAction d s = Inr (d', s') \<longrightarrow>
            length (raw_action d') = length batch
            \<and> (\<forall>i<length batch.
                  (\<not> is_player_action d ! i \<longrightarrow>
                     Index (batch ! i) (env_index d) = Inr (raw_action d' ! i))
                \<and> (is_single_player d \<and> is_player_action d ! i \<longrightarrow>
                     Slice (batch ! i) (env_index d) (env_index d + 1) = Inr (raw_action d' ! i)
                     \<and> hd (dims (raw_action d' ! i)) = 1)
                \<and> (\<not> is_single_player d \<and> is_player_action d ! i \<longrightarrow>
                     (\<exists>idx. env_player_scan d s = Inr idx
                        \<and> dims (raw_action d' ! i) \<noteq> []
                        \<and> hd (dims (raw_action d' ! i)) = length idx
                        \<and> (fst (contiguity idx) \<longrightarrow>
                              Slice (batch ! i) (fst (snd (contiguity idx)))
                                (snd (snd (contiguity idx))) = Inr (raw_action d' ! i))
                        \<and> (\<not> fst (contiguity idx) \<longrightarrow> length s \<le> buf (raw_action d' ! i))
                        \<and> (in_store s (batch ! i) \<longrightarrow>
                              contents s' (raw_action d' ! i)
                                = matched_rows s (batch ! i) idx)))))
       \<and> (is_single_player d \<and> length batch \<le> length (is_player_action d)
            \<and> (\<forall>i<length batch. dims (batch ! i) \<noteq> [] \<and> env_index d < hd (dims (batch ! i)))
          \<longrightarrow> (\<exists>d' s'. ParseAction d s = Inr (d', s')))
       \<and> (\<not> is_single_player d \<and> 1 < length batch
            \<and> dims (batch ! 1) \<noteq> [] \<and> buf (batch ! 1) < length s
            \<and> offset (batch ! 1) + hd (dims (batch ! 1)) \<le> length (s ! buf (batch ! 1))
            \<and> length batch \<le> length (is_player_action d)
            \<and> (\<forall>i<length batch.
                  if is_player_action d ! i
                  then in_store s (batch ! i) \<and> dims (batch ! i) \<noteq> []
                       \<and> hd (dims (batch ! 1)) \<le> hd (dims (batch ! i))
                       \<and> i < length (action_specs d) \<and> shape (action_specs d ! i) \<noteq> []
                       \<and> \<not> list_ex (\<lambda>x. x < 0) (tl (shape (action_specs d ! i)))
                       \<and> prod_list (map nat (tl (shape (action_specs d ! i))))
                           = row_size (batch ! i)
                  else dims (batch ! i) \<noteq> [] \<and> env_index d < hd (dims (batch ! i)))
          \<longrightarrow> (\<exists>d' s'. ParseAction d s = Inr (d', s')))"
proof (intro conjI allI impI)
  fix d' s' assume pa: "ParseAction d s = Inr (d', s')"
  let ?d0 = "d\<lparr>raw_action := []\<rparr>"
  have sel: "is_player_action ?d0 = is_player_action d" "env_index ?d0 = env_index d"
    "raw_action ?d0 = []"
    by simp_all
  have ent: "length (raw_action d') = length batch
     \<and> (\<forall>i<length batch.
           (\<not> is_player_action d ! i \<longrightarrow>
              Index (batch ! i) (env_index d) = Inr (raw_action d' ! i))
         \<and> (is_single_player d \<and> is_player_action d ! i \<longrightarrow>
              Slice (batch ! i) (env_index d) (env_index d + 1) = Inr (raw_action d' ! i)))"
  proof (cases "is_single_player d")
    case True
    then have "for_loop (single_body batch) 0 (length batch) (?d0, s) = Inr (d', s')"
      using pa by (simp add: ParseAction_unfold[OF assms])
    from single_loop_Inr[OF this sel(3)] show ?thesis
      unfolding sel using True by auto
  next
    case False
    then obtain idx where "for_loop (multi_body batch idx (fst (contiguity idx))
        (fst (snd (contiguity idx))) (snd (snd (contiguity idx)))) 0 (length batch) (?d0, s)
          = Inr (d', s')"
      using pa by (auto simp: ParseAction_unfold[OF assms] split: sum.splits)
    from multi_loop_Inr[OF this sel(3)] show ?thesis
      unfolding sel using False by auto
  qed
  then show "length (raw_action d') = length batch" by simp
  fix i assume i: "i < length batch"
  show "\<not> is_player_action d ! i \<Longrightarrow> Index (batch ! i) (env_index d) = Inr (raw_action d' ! i)"
    using ent i by blast
  show "\<exists>idx. env_player_scan d s = Inr idx
           \<and> dims (raw_action d' ! i) \<noteq> []
           \<and> hd (dims (raw_action d' ! i)) = length idx
           \<and> (fst (contiguity idx) \<longrightarrow>
                 Slice (batch ! i) (fst (snd (contiguity idx)))
                   (snd (snd (contiguity idx))) = Inr (raw_action d' ! i))
           \<and> (\<not> fst (contiguity idx) \<longrightarrow> length s \<le> buf (raw_action d' ! i))
           \<and> (in_store s (batch ! i) \<longrightarrow>
                 contents s' (raw_action d' ! i) = matched_rows s (batch ! i) idx)"
    if "\<not> is_single_player d \<and> is_player_action d ! i"
    using multi_entry[OF assms _ pa i] that by blast
  assume "is_single_player d \<and> is_player_action d ! i"
  then show sl: "Slice (batch ! i) (env_index d) (env_index d + 1) = Inr (raw_action d' ! i)"
    using ent i by blast
  then show "hd (dims (raw_action d' ! i)) = 1"
    by (rule Slice_one_row)
next
  assume a: "is_single_player d \<and> length batch \<le> length (is_player_action d)
            \<and> (\<forall>i<length batch. dims (batch ! i) \<noteq> [] \<and> env_index d < hd (dims (batch ! i)))"
  have "\<exists>r. for_loop (single_body batch) 0 (length batch) (d\<lparr>raw_action := []\<rparr>, s) = Inr r"
    by (rule single_loop_total) (use a in simp_all)
  then show "\<exists>d' s'. ParseAction d s = Inr (d', s')"
    using a by (auto simp: ParseAction_unfold[OF assms])
next
  assume a: "\<not> is_single_player d \<and> 1 < length batch
            \<and> dims (batch ! 1) \<noteq> [] \<and> buf (batch ! 1) < length s
            \<and> offset (batch ! 1) + hd (dims (batch ! 1)) \<le> length (s ! buf (batch ! 1))
            \<and> length batch \<le> length (is_player_action d)
            \<and> (\<forall>i<length batch.
                  if is_player_action d ! i
                  then in_store s (batch ! i) \<and> dims (batch ! i) \<noteq> []
                       \<and> hd (dims (batch ! 1)) \<le> hd (dims (batch ! i))
                       \<and> i < length (action_specs d) \<and> shape (action_specs d ! i) \<noteq> []
                       \<and> \<not> list_ex (\<lambda>x. x < 0) (tl (shape (action_specs d ! i)))
                       \<and> prod_list (map nat (tl (shape (action_specs d ! i))))
                           = row_size (batch ! i)
                  else dims (batch ! i) \<noteq> [] \<and> env_index d < hd (dims (batch ! i)))"
  show "\<exists>d' s'. ParseAction d s = Inr (d', s')"
    by (rule multi_total[OF assms]) (use a in blast)+
qed

theorem ParseAction_one_entry_per_field_witness:
  "action_batch (ex_env_single 1 1) = Some ex_batch
   \<and> is_single_player (ex_env_single 1 1)
   \<and> is_player_action (ex_env_single 1 1) = [False, True, True]
   \<and> (\<exists>d' s'. ParseAction (ex_env_single 1 1) ex_store_grouped = Inr (d', s')
         \<and> raw_action d' = [\<lparr>buf = 0, offset = 1, dims = []\<rparr>, \<lparr>buf = 1, offset = 1, dims = [1]\<rparr>,
                            \<lparr>buf = 2, offset = 2, dims = [1, 2]\<rparr>]
         \<and> length (raw_action d') = length ex_batch
         \<and> Index (ex_batch ! 0) 1 = Inr (raw_action d' ! 0)
         \<and> Slice (ex_batch ! 1) 1 2 = Inr (raw_action d' ! 1)
         \<and> Slice (ex_batch ! 2) 1 2 = Inr (raw_action d' ! 2))
   \<and> action_batch (ex_env 0 0) = Some ex_batch
   \<and> \<not> is_single_player (ex_env 0 0)
   \<and> is_player_action (ex_env 0 0) = [False, True, True]
   \<and> env_player_scan (ex_env 0 0) ex_store_scattered = Inr [0, 2]
   \<and> (\<exists>d' s'. ParseAction (ex_env 0 0) ex_store_scattered = Inr (d', s')
         \<and> raw_action d' = [\<lparr>buf = 0, offset = 0, dims = []\<rparr>, \<lparr>buf = 3, offset = 0, dims = [2]\<rparr>,
                            \<lparr>buf = 4, offset = 0, dims = [2, 2]\<rparr>]
         \<and> Index (ex_batch ! 0) 0 = Inr (raw_action d' ! 0)
         \<and> contents s' (raw_action d' ! 1) = matched_rows ex_store_scattered (ex_batch ! 1) [0, 2]
         \<and> contents s' (raw_action d' ! 2) = matched_rows ex_store_scattered (ex_batch ! 2) [0, 2])
   \<and> matched_rows ex_store_scattered (ex_batch ! 1) [0, 2] = map IntCell [0, 0]
   \<and> matched_rows ex_store_scattered (ex_batch ! 2) [0, 2] = map RawCell [10, 11, 30, 31]
   \<and> env_player_scan (ex_env 2 2) ex_store_grouped = Inr [3, 4]
   \<and> (\<exists>d' s'. ParseAction (ex_env 2 2) ex_store_grouped = Inr (d', s')
         \<and> Index (ex_batch ! 0) 2 = Inr (raw_action d' ! 0)
         \<and> Slice (ex_batch ! 1) 3 5 = Inr (raw_action d' ! 1)
         \<and> Slice (ex_batch ! 2) 3 5 = Inr (raw_action d' ! 2)
         \<and> contents s' (raw_action d' ! 2) = matched_rows ex_store_grouped (ex_batch ! 2) [3, 4])
   \<and> matched_rows ex_store_grouped (ex_batch ! 2) [3, 4] = map RawCell [40, 41, 50, 51]"
proof -
  have l: "length ex_batch = 3" by (simp add: ex_batch_def)
  have a1: "action_batch (ex_env_single 1 1) = Some ex_batch"
    and a2: "action_batch (ex_env e k) = Some ex_batch" for e k
    by (simp_all add: ex_env_single_def ex_defs)
  have f1: "is_single_player (ex_env_single 1 1)"
    "is_player_action (ex_env_single 1 1) = [False, True, True]"
    "env_index (ex_env_single 1 1) = 1"
    and f2: "\<not> is_single_player (ex_env e k)" "is_player_action (ex_env e k) = [False, True, True]"
    "env_index (ex_env e k) = k" for e k
    by (simp_all add: ex_env_single_def ex_defs)
  have w1: "is_single_player (ex_env_single 1 1)
      \<and> length ex_batch \<le> length (is_player_action (ex_env_single 1 1))
      \<and> (\<forall>i<length ex_batch. dims (ex_batch ! i) \<noteq> []
              \<and> env_index (ex_env_single 1 1) < hd (dims (ex_batch ! i)))"
    by code_simp
  have w2: "\<not> is_single_player (ex_env e k) \<and> 1 < length ex_batch
            \<and> dims (ex_batch ! 1) \<noteq> [] \<and> buf (ex_batch ! 1) < length st
            \<and> offset (ex_batch ! 1) + hd (dims (ex_batch ! 1)) \<le> length (st ! buf (ex_batch ! 1))
            \<and> length ex_batch \<le> length (is_player_action (ex_env e k))
            \<and> (\<forall>i<length ex_batch.
                  if is_player_action (ex_env e k) ! i
                  then in_store st (ex_batch ! i) \<and> dims (ex_batch ! i) \<noteq> []
                       \<and> hd (dims (ex_batch ! 1)) \<le> hd (dims (ex_batch ! i))
                       \<and> i < length (action_specs (ex_env e k))
                       \<and> shape (action_specs (ex_env e k) ! i) \<noteq> []
                       \<and> \<not> list_ex (\<lambda>x. x < 0) (tl (shape (action_specs (ex_env e k) ! i)))
                       \<and> prod_list (map nat (tl (shape (action_specs (ex_env e k) ! i))))
                           = row_size (ex_batch ! i)
                  else dims (ex_batch ! i) \<noteq> []
                       \<and> env_index (ex_env e k) < hd (dims (ex_batch ! i)))"
    if "(e, k, st) = (0, 0, ex_store_scattered) \<or> (e, k, st) = (2, 2, ex_store_grouped)"
    for e k st
    using that by (elim disjE; clarify) code_simp+
  note T1 = ParseAction_one_entry_per_field[OF a1, of ex_store_grouped]
  note T2 = ParseAction_one_entry_per_field[OF a2[of 0 0], of ex_store_scattered]
  note T3 = ParseAction_one_entry_per_field[OF a2[of 2 2], of ex_store_grouped]
  obtain d1 s1 where p1: "ParseAction (ex_env_single 1 1) ex_store_grouped = Inr (d1, s1)"
    using T1 w1 by blast
  obtain d2 s2 where p2: "ParseAction (ex_env 0 0) ex_store_scattered = Inr (d2, s2)"
    using T2 w2[of 0 0 ex_store_scattered] by blast
  obtain d3 s3 where p3: "ParseAction (ex_env 2 2) ex_store_grouped = Inr (d3, s3)"
    using T3 w2[of 2 2 ex_store_grouped] by blast
  have "map_sum id (\<lambda>(d', s'). raw_action d') (ParseAction (ex_env_single 1 1) ex_store_grouped)
      = Inr [\<lparr>buf = 0, offset = 1, dims = []\<rparr>, \<lparr>buf = 1, offset = 1, dims = [1]\<rparr>,
             \<lparr>buf = 2, offset = 2, dims = [1, 2]\<rparr>]"
    by code_simp
  then have r1: "raw_action d1 = [\<lparr>buf = 0, offset = 1, dims = []\<rparr>, \<lparr>buf = 1, offset = 1, dims = [1]\<rparr>,
                              \<lparr>buf = 2, offset = 2, dims = [1, 2]\<rparr>]"
    using p1 by simp
  have "map_sum id (\<lambda>(d', s'). raw_action d') (ParseAction (ex_env 0 0) ex_store_scattered)
      = Inr [\<lparr>buf = 0, offset = 0, dims = []\<rparr>, \<lparr>buf = 3, offset = 0, dims = [2]\<rparr>,
             \<lparr>buf = 4, offset = 0, dims = [2, 2]\<rparr>]"
    by code_simp
  then have r2: "raw_action d2 = [\<lparr>buf = 0, offset = 0, dims = []\<rparr>, \<lparr>buf = 3, offset = 0, dims = [2]\<rparr>,
                              \<lparr>buf = 4, offset = 0, dims = [2, 2]\<rparr>]"
    using p2 by simp
  have sc: "env_player_scan (ex_env 0 0) ex_store_scattered = Inr [0, 2]"
    "env_player_scan (ex_env 2 2) ex_store_grouped = Inr [3, 4]"
    by code_simp+
  have ct: "\<not> fst (contiguity [0, 2])" "contiguity [3, 4] = (True, 3, 5)"
    by code_simp+
  have ins: "in_store ex_store_scattered (ex_batch ! 1)" "in_store ex_store_scattered (ex_batch ! 2)"
    "in_store ex_store_grouped (ex_batch ! 2)"
    by code_simp+
  have m: "matched_rows ex_store_scattered (ex_batch ! 1) [0, 2] = map IntCell [0, 0]"
    "matched_rows ex_store_scattered (ex_batch ! 2) [0, 2] = map RawCell [10, 11, 30, 31]"
    "matched_rows ex_store_grouped (ex_batch ! 2) [3, 4] = map RawCell [40, 41, 50, 51]"
    by code_simp+
  have g1: "length (raw_action d1) = length ex_batch"
    and h1: "\<And>i. i < length ex_batch \<Longrightarrow>
        (\<not> is_player_action (ex_env_single 1 1) ! i \<longrightarrow>
            Index (ex_batch ! i) (env_index (ex_env_single 1 1)) = Inr (raw_action d1 ! i))
        \<and> (is_single_player (ex_env_single 1 1) \<and> is_player_action (ex_env_single 1 1) ! i \<longrightarrow>
            Slice (ex_batch ! i) (env_index (ex_env_single 1 1))
                (env_index (ex_env_single 1 1) + 1) = Inr (raw_action d1 ! i)
            \<and> hd (dims (raw_action d1 ! i)) = 1)"
    using T1 p1 by blast+
  have t1: "length (raw_action d1) = length ex_batch
     \<and> Index (ex_batch ! 0) 1 = Inr (raw_action d1 ! 0)
     \<and> Slice (ex_batch ! 1) 1 2 = Inr (raw_action d1 ! 1)
     \<and> Slice (ex_batch ! 2) 1 2 = Inr (raw_action d1 ! 2)"
    using g1 h1[of 0] h1[of 1] h1[of 2] f1 l by (simp add: numeral_2_eq_2)
  have h2: "(\<not> is_player_action (ex_env 0 0) ! i \<longrightarrow>
            Index (ex_batch ! i) (env_index (ex_env 0 0)) = Inr (raw_action d2 ! i))
        \<and> (\<not> is_single_player (ex_env 0 0) \<and> is_player_action (ex_env 0 0) ! i \<longrightarrow>
             (\<exists>idx. env_player_scan (ex_env 0 0) ex_store_scattered = Inr idx
                \<and> (in_store ex_store_scattered (ex_batch ! i) \<longrightarrow>
                      contents s2 (raw_action d2 ! i)
                        = matched_rows ex_store_scattered (ex_batch ! i) idx)))"
    if "i < length ex_batch" for i
    using T2 p2 that by blast
  have t2: "Index (ex_batch ! 0) 0 = Inr (raw_action d2 ! 0)
     \<and> contents s2 (raw_action d2 ! 1) = matched_rows ex_store_scattered (ex_batch ! 1) [0, 2]
     \<and> contents s2 (raw_action d2 ! 2) = matched_rows ex_store_scattered (ex_batch ! 2) [0, 2]"
    using h2[of 0] h2[of 1] h2[of 2] f2[of 0 0] l sc(1) ins by simp
  have h3: "(\<not> is_player_action (ex_env 2 2) ! i \<longrightarrow>
            Index (ex_batch ! i) (env_index (ex_env 2 2)) = Inr (raw_action d3 ! i))
        \<and> (\<not> is_single_player (ex_env 2 2) \<and> is_player_action (ex_env 2 2) ! i \<longrightarrow>
             (\<exists>idx. env_player_scan (ex_env 2 2) ex_store_grouped = Inr idx
                \<and> (fst (contiguity idx) \<longrightarrow>
                      Slice (ex_batch ! i) (fst (snd (contiguity idx)))
                        (snd (snd (contiguity idx))) = Inr (raw_action d3 ! i))
                \<and> (in_store ex_store_grouped (ex_batch ! i) \<longrightarrow>
                      contents s3 (raw_action d3 ! i)
                        = matched_rows ex_store_grouped (ex_batch ! i) idx)))"
    if "i < length ex_batch" for i
    using T3 p3 that by blast
  have t3: "Index (ex_batch ! 0) 2 = Inr (raw_action d3 ! 0)
     \<and> Slice (ex_batch ! 1) 3 5 = Inr (raw_action d3 ! 1)
     \<and> Slice (ex_batch ! 2) 3 5 = Inr (raw_action d3 ! 2)
     \<and> contents s3 (raw_action d3 ! 2) = matched_rows ex_store_grouped (ex_batch ! 2) [3, 4]"
    using h3[of 0] h3[of 1] h3[of 2] f2[of 2 2] l sc(2) ct(2) ins by simp
  have E1: "\<exists>d' s'. ParseAction (ex_env_single 1 1) ex_store_grouped = Inr (d', s')
         \<and> raw_action d' = [\<lparr>buf = 0, offset = 1, dims = []\<rparr>, \<lparr>buf = 1, offset = 1, dims = [1]\<rparr>,
                            \<lparr>buf = 2, offset = 2, dims = [1, 2]\<rparr>]
         \<and> length (raw_action d') = length ex_batch
         \<and> Index (ex_batch ! 0) 1 = Inr (raw_action d' ! 0)
         \<and> Slice (ex_batch ! 1) 1 2 = Inr (raw_action d' ! 1)
         \<and> Slice (ex_batch ! 2) 1 2 = Inr (raw_action d' ! 2)"
    using p1 r1 t1 by blast
  have E2: "\<exists>d' s'. ParseAction (ex_env 0 0) ex_store_scattered = Inr (d', s')
         \<and> raw_action d' = [\<lparr>buf = 0, offset = 0, dims = []\<rparr>, \<lparr>buf = 3, offset = 0, dims = [2]\<rparr>,
                            \<lparr>buf = 4, offset = 0, dims = [2, 2]\<rparr>]
         \<and> Index (ex_batch ! 0) 0 = Inr (raw_action d' ! 0)
         \<and> contents s' (raw_action d' ! 1) = matched_rows ex_store_scattered (ex_batch ! 1) [0, 2]
         \<and> contents s' (raw_action d' ! 2) = matched_rows ex_store_scattered (ex_batch ! 2) [0, 2]"
    using p2 r2 t2 by blast
  have E3: "\<exists>d' s'. ParseAction (ex_env 2 2) ex_store_grouped = Inr (d', s')
         \<and> Index (ex_batch ! 0) 2 = Inr (raw_action d' ! 0)
         \<and> Slice (ex_batch ! 1) 3 5 = Inr (raw_action d' ! 1)
         \<and> Slice (ex_batch ! 2) 3 5 = Inr (raw_action d' ! 2)
         \<and> contents s' (raw_action d' ! 2) = matched_rows ex_store_grouped (ex_batch ! 2) [3, 4]"
    using p3 t3 by blast
  note A = a2[of 0 0] f2(1,2)[of 0 0]
  show ?thesis
    by (intro conjI) (rule a1 f1(1,2) E1 A sc E2 m E3)+
qed

end
